theory Spec2Isabelle
  imports Main "HOL-Library.Word"
begin

unbundle bit_operations_syntax

section \<open>Constants and types of crypto.h\<close>

text \<open>
  Modelled from the spec: the header crypto.h, which both source files include, gives the
  block size in bytes (8), the key size in bytes (10), the block size in bits and the
  bit-sliced parallel width (32, the width of one bit-plane register: the comments of
  \<^verbatim>\<open>present_bs/crypto.c\<close> speak of "all 32 bits of one state_bs entry" and XOR a whole
  register with \<^verbatim>\<open>0xFFFFFFFF\<close>). A bit-plane register \<^verbatim>\<open>bs_reg_t\<close> is a 32-bit unsigned
  word, a byte \<^verbatim>\<open>uint8_t\<close> an 8-bit one.
\<close>

definition CRYPTO_IN_SIZE :: nat where
  "CRYPTO_IN_SIZE = 8"

definition CRYPTO_KEY_SIZE :: nat where
  "CRYPTO_KEY_SIZE = 10"

definition CRYPTO_IN_SIZE_BIT :: nat where
  "CRYPTO_IN_SIZE_BIT = CRYPTO_IN_SIZE * 8"

definition BITSLICE_WIDTH :: nat where
  "BITSLICE_WIDTH = 32"

type_synonym uint8_t = "8 word"
type_synonym bs_reg_t = "32 word"

section \<open>The scalar implementation\<close>

text \<open>
  Buffers are lists of bytes; a function that writes through a pointer returns the
  buffer it has written. A counter that only indexes an array is a natural number: it
  stays below 256, so the \<^verbatim>\<open>uint8_t\<close> counter of the source never wraps. The round
  counter of \<^verbatim>\<open>crypto_func\<close>, which \<^verbatim>\<open>update_round_key\<close> takes, is an 8-bit word. A shift and an OR that C
  computes in \<^verbatim>\<open>int\<close> and stores into a \<^verbatim>\<open>uint8_t\<close> is the same operation on 8-bit
  words, since the store keeps the low eight bits and the operations are bitwise.
\<close>

definition getbit :: "uint8_t \<Rightarrow> nat \<Rightarrow> uint8_t" where
  "getbit v b = drop_bit b v AND 1"

definition cpybit :: "uint8_t \<Rightarrow> nat \<Rightarrow> uint8_t \<Rightarrow> uint8_t" where
  "cpybit v b bitv =
     (let mask = NOT (push_bit b 1);
          v = v AND mask
      in v OR push_bit b bitv)"

definition add_round_key :: "uint8_t list \<Rightarrow> uint8_t list \<Rightarrow> uint8_t list" where
  "add_round_key pt roundkey =
     fold (\<lambda>i pt. pt[i := pt ! i XOR roundkey ! i]) [0..<8] pt"

definition sbox :: "uint8_t list" where
  "sbox = [0xC, 0x5, 0x6, 0xB, 0x9, 0x0, 0xA, 0xD, 0x3, 0xE, 0xF, 0x8, 0x4, 0x7, 0x1, 0x2]"

definition sbox_layer :: "uint8_t list \<Rightarrow> uint8_t list" where
  "sbox_layer s =
     fold (\<lambda>i s.
        let ln = s ! i AND 0xf;
            un = drop_bit 4 (s ! i)
        in s[i := sbox ! unat ln OR push_bit 4 (sbox ! unat un)]) [0..<8] s"

text \<open>The permuted position that both \<^verbatim>\<open>pbox_layer\<close> functions compute into \<^verbatim>\<open>out\<close>.\<close>

definition pbox_pos :: "nat \<Rightarrow> nat" where
  "pbox_pos b = b div 4 + (b mod 4) * 16"

definition pbox_layer :: "uint8_t list \<Rightarrow> uint8_t list" where
  "pbox_layer s =
     (let state_out =
            fold (\<lambda>b state_out.
               let val = getbit (s ! (b div 8)) (b mod 8);
                   out = pbox_pos b
               in state_out[out div 8 := cpybit (state_out ! (out div 8)) (out mod 8) val])
              [0..<64] (replicate 8 0)
      in fold (\<lambda>i s. s[i := state_out ! i]) [0..<8] s)"

subsection \<open>The key schedule\<close>

text \<open>
  \<^verbatim>\<open>update_round_key\<close> is the same text in both source files (the bit-sliced file holds
  its own copy of the table \<^verbatim>\<open>sbox\<close>, with the same sixteen entries). Its straight-line
  body is split at the source's three comments: the rotation, the table lookup on the
  most significant bits, and the XOR of the round counter.
\<close>

definition key_rotate :: "uint8_t list \<Rightarrow> uint8_t list" where
  "key_rotate key0 =
     (let tmp2 = key0 ! 2;
          tmp1 = key0 ! 1;
          tmp0 = key0 ! 0;
          key = key0;
          key = key[0 := drop_bit 3 (key ! 2) OR push_bit 5 (key ! 3)];
          key = key[1 := drop_bit 3 (key ! 3) OR push_bit 5 (key ! 4)];
          key = key[2 := drop_bit 3 (key ! 4) OR push_bit 5 (key ! 5)];
          key = key[3 := drop_bit 3 (key ! 5) OR push_bit 5 (key ! 6)];
          key = key[4 := drop_bit 3 (key ! 6) OR push_bit 5 (key ! 7)];
          key = key[5 := drop_bit 3 (key ! 7) OR push_bit 5 (key ! 8)];
          key = key[6 := drop_bit 3 (key ! 8) OR push_bit 5 (key ! 9)];
          key = key[7 := drop_bit 3 (key ! 9) OR push_bit 5 tmp0];
          key = key[8 := drop_bit 3 tmp0 OR push_bit 5 tmp1];
          key = key[9 := drop_bit 3 tmp1 OR push_bit 5 tmp2]
      in key)"

definition key_sbox :: "uint8_t list \<Rightarrow> uint8_t list" where
  "key_sbox key0 =
     (let tmp = sbox ! unat (drop_bit 4 (key0 ! 9));
          key = key0[9 := key0 ! 9 AND 0x0F];
          key = key[9 := key ! 9 OR push_bit 4 tmp]
      in key)"

definition key_counter :: "uint8_t list \<Rightarrow> uint8_t \<Rightarrow> uint8_t list" where
  "key_counter key0 r =
     (let key = key0[1 := key0 ! 1 XOR push_bit 7 r];
          key = key[2 := key ! 2 XOR drop_bit 1 r]
      in key)"

definition update_round_key :: "uint8_t list \<Rightarrow> uint8_t \<Rightarrow> uint8_t list" where
  "update_round_key key r = key_counter (key_sbox (key_rotate key)) r"

subsection \<open>The round loop\<close>

text \<open>
  The loop \<^verbatim>\<open>for(i = 1; i <= 31; i++)\<close> with its \<^verbatim>\<open>uint8_t\<close> counter; \<^verbatim>\<open>key + 2\<close> is the
  key buffer from its third byte on.
\<close>

function crypto_loop :: "uint8_t \<Rightarrow> uint8_t list \<Rightarrow> uint8_t list \<Rightarrow> uint8_t list \<times> uint8_t list" where
  "crypto_loop i pt key =
     (if i \<le> 31
      then crypto_loop (i + 1)
             (pbox_layer (sbox_layer (add_round_key pt (drop 2 key))))
             (update_round_key key i)
      else (pt, key))"
  by pat_completeness auto
termination
proof (relation "measure (\<lambda>(i, pt, key). 32 - unat i)")
  show "wf (measure (\<lambda>(i :: uint8_t, pt :: uint8_t list, key :: uint8_t list). 32 - unat i))"
    by simp
next
  fix i :: uint8_t and pt key :: "uint8_t list"
  assume "i \<le> 31"
  then have "unat i \<le> 31"
    by (simp add: word_le_nat_alt)
  then have "unat (i + 1) = unat i + 1"
    by (simp add: unat_word_ariths)
  with \<open>unat i \<le> 31\<close>
  show "((i + 1, pbox_layer (sbox_layer (add_round_key pt (drop 2 key))), update_round_key key i),
         (i, pt, key)) \<in> measure (\<lambda>(i, pt, key). 32 - unat i)"
    by simp
qed

declare crypto_loop.simps [simp del]

definition crypto_func :: "uint8_t list \<Rightarrow> uint8_t list \<Rightarrow> uint8_t list \<times> uint8_t list" where
  "crypto_func pt key =
     (case crypto_loop 1 pt key of
        (pt, key) \<Rightarrow> (add_round_key pt (drop 2 key), key))"

section \<open>The bit-sliced implementation\<close>

text \<open>
  In \<^verbatim>\<open>enslice\<close> the extracted bit is an \<^verbatim>\<open>int\<close> that is shifted left by the lane number and
  ORed into the 32-bit register; the model shifts in the register's type, which for lane 31
  is the bit pattern that the two's-complement targets of the source produce. In
  \<^verbatim>\<open>unslice\<close> the shifted bit is a 32-bit value whose low eight bits are stored.
\<close>

definition enslice :: "uint8_t list \<Rightarrow> bs_reg_t list \<Rightarrow> bs_reg_t list" where
  "enslice pt state_bs =
     fold (\<lambda>i state_bs.
        let temp =
              fold (\<lambda>b temp.
                 temp OR push_bit b (ucast (drop_bit (i mod 8) (pt ! (i div 8 + b * 8))) AND 1))
                [0..<BITSLICE_WIDTH] 0
        in state_bs[i := temp]) [0..<CRYPTO_IN_SIZE_BIT] state_bs"

definition unslice :: "bs_reg_t list \<Rightarrow> uint8_t list \<Rightarrow> uint8_t list" where
  "unslice state_bs pt =
     fold (\<lambda>i pt.
        let temp =
              fold (\<lambda>b temp.
                 temp OR ucast (push_bit b
                   (drop_bit (i div 8) (state_bs ! ((i * 8) mod CRYPTO_IN_SIZE_BIT + b)) AND 1)))
                [0..<8] 0
        in pt[i := temp]) [0..<CRYPTO_IN_SIZE * BITSLICE_WIDTH] pt"

definition BS_INV :: bs_reg_t where
  "BS_INV = 0xFFFFFFFF"

definition sbox0 :: "bs_reg_t \<Rightarrow> bs_reg_t \<Rightarrow> bs_reg_t \<Rightarrow> bs_reg_t \<Rightarrow> bs_reg_t" where
  "sbox0 x0 x1 x2 x3 = x0 XOR (x1 AND x2) XOR x2 XOR x3"

definition sbox1 :: "bs_reg_t \<Rightarrow> bs_reg_t \<Rightarrow> bs_reg_t \<Rightarrow> bs_reg_t \<Rightarrow> bs_reg_t" where
  "sbox1 x0 x1 x2 x3 =
     (let c = x2 AND x3
      in ((x0 AND x1) AND (x2 XOR x3)) XOR (x3 AND x1) XOR x1 XOR (x0 AND c) XOR c XOR x3)"

definition sbox2 :: "bs_reg_t \<Rightarrow> bs_reg_t \<Rightarrow> bs_reg_t \<Rightarrow> bs_reg_t \<Rightarrow> bs_reg_t" where
  "sbox2 x0 x1 x2 x3 =
     (let c = x0 AND x3
      in (x0 AND x1) XOR (c AND x1) XOR (x3 AND x1) XOR x2 XOR c XOR (c AND x2) XOR x3 XOR BS_INV)"

definition sbox3 :: "bs_reg_t \<Rightarrow> bs_reg_t \<Rightarrow> bs_reg_t \<Rightarrow> bs_reg_t \<Rightarrow> bs_reg_t" where
  "sbox3 x0 x1 x2 x3 =
     (let c = x1 AND x2
      in (c AND x0) XOR ((x3 AND x0) AND (x1 XOR x2)) XOR x0 XOR x1 XOR c XOR x3 XOR BS_INV)"

definition add_round_key_bs :: "bs_reg_t list \<Rightarrow> uint8_t list \<Rightarrow> bs_reg_t list" where
  "add_round_key_bs state_bs roundkey =
     fold (\<lambda>bit state_bs.
        let key_bit = drop_bit (bit mod CRYPTO_IN_SIZE) (roundkey ! (bit div CRYPTO_IN_SIZE)) AND 1
        in state_bs[bit := state_bs ! bit XOR (if key_bit \<noteq> 0 then 0xFFFFFFFF else 0)])
       [0..<CRYPTO_IN_SIZE_BIT] state_bs"

definition sbox_layer_bs :: "bs_reg_t list \<Rightarrow> bs_reg_t list" where
  "sbox_layer_bs state_bs =
     (let state_out =
            fold (\<lambda>i state_out.
               let in0 = state_bs ! (i * 4 + 0);
                   in1 = state_bs ! (i * 4 + 1);
                   in2 = state_bs ! (i * 4 + 2);
                   in3 = state_bs ! (i * 4 + 3);
                   state_out = state_out[i * 4 + 0 := sbox0 in0 in1 in2 in3];
                   state_out = state_out[i * 4 + 1 := sbox1 in0 in1 in2 in3];
                   state_out = state_out[i * 4 + 2 := sbox2 in0 in1 in2 in3];
                   state_out = state_out[i * 4 + 3 := sbox3 in0 in1 in2 in3]
               in state_out) [0..<16] (replicate CRYPTO_IN_SIZE_BIT 0)
      in fold (\<lambda>i state_bs. state_bs[i := state_out ! i]) [0..<CRYPTO_IN_SIZE_BIT] state_bs)"

definition pbox_layer_bs :: "bs_reg_t list \<Rightarrow> bs_reg_t list" where
  "pbox_layer_bs state_bs =
     (let state_out =
            fold (\<lambda>bit state_out.
               let out = pbox_pos bit
               in state_out[out := state_bs ! bit]) [0..<CRYPTO_IN_SIZE_BIT]
              (replicate CRYPTO_IN_SIZE_BIT 0)
      in fold (\<lambda>i state_bs. state_bs[i := state_out ! i]) [0..<CRYPTO_IN_SIZE_BIT] state_bs)"

function crypto_loop_bs :: "uint8_t \<Rightarrow> bs_reg_t list \<Rightarrow> uint8_t list \<Rightarrow> bs_reg_t list \<times> uint8_t list" where
  "crypto_loop_bs i state key =
     (if i \<le> 31
      then crypto_loop_bs (i + 1)
             (pbox_layer_bs (sbox_layer_bs (add_round_key_bs state (drop 2 key))))
             (update_round_key key i)
      else (state, key))"
  by pat_completeness auto
termination
proof (relation "measure (\<lambda>(i, state, key). 32 - unat i)")
  show "wf (measure (\<lambda>(i :: uint8_t, state :: bs_reg_t list, key :: uint8_t list). 32 - unat i))"
    by simp
next
  fix i :: uint8_t and state :: "bs_reg_t list" and key :: "uint8_t list"
  assume "i \<le> 31"
  then have "unat i \<le> 31"
    by (simp add: word_le_nat_alt)
  then have "unat (i + 1) = unat i + 1"
    by (simp add: unat_word_ariths)
  with \<open>unat i \<le> 31\<close>
  show "((i + 1, pbox_layer_bs (sbox_layer_bs (add_round_key_bs state (drop 2 key))),
          update_round_key key i), (i, state, key)) \<in> measure (\<lambda>(i, state, key). 32 - unat i)"
    by simp
qed

declare crypto_loop_bs.simps [simp del]

text \<open>
  The local array \<^verbatim>\<open>state\<close> is not initialised in the source; \<^verbatim>\<open>enslice\<close> writes each of
  its 64 entries before any is read, so the model starts it at zero. The backbuffer
  \<^verbatim>\<open>bb\<close> is never used.
\<close>

definition crypto_func_bs :: "uint8_t list \<Rightarrow> uint8_t list \<Rightarrow> uint8_t list \<times> uint8_t list" where
  "crypto_func_bs pt key =
     (let state = enslice pt (replicate CRYPTO_IN_SIZE_BIT 0)
      in case crypto_loop_bs 1 state key of
           (state, key) \<Rightarrow>
             (let state = add_round_key_bs state (drop 2 key)
              in (unslice state pt, key)))"

section \<open>The registers that the buffers represent\<close>

text \<open>
  The 80-bit key register held in the 10-byte key buffer, \<^verbatim>\<open>key[0]\<close> its least significant
  byte and \<^verbatim>\<open>key[9]\<close> its most significant one, and the 64-bit value held in an 8-byte
  block, \<^verbatim>\<open>pt[0]\<close> its least significant byte. Bit \<open>n\<close> of either is bit \<open>n mod 8\<close> of
  byte \<open>n div 8\<close>.
\<close>

definition key_reg :: "uint8_t list \<Rightarrow> 80 word" where
  "key_reg key =
     ucast (key ! 0) OR push_bit 8 (ucast (key ! 1)) OR push_bit 16 (ucast (key ! 2)) OR
     push_bit 24 (ucast (key ! 3)) OR push_bit 32 (ucast (key ! 4)) OR
     push_bit 40 (ucast (key ! 5)) OR push_bit 48 (ucast (key ! 6)) OR
     push_bit 56 (ucast (key ! 7)) OR push_bit 64 (ucast (key ! 8)) OR
     push_bit 72 (ucast (key ! 9))"

definition state_reg :: "uint8_t list \<Rightarrow> 64 word" where
  "state_reg s =
     ucast (s ! 0) OR push_bit 8 (ucast (s ! 1)) OR push_bit 16 (ucast (s ! 2)) OR
     push_bit 24 (ucast (s ! 3)) OR push_bit 32 (ucast (s ! 4)) OR
     push_bit 40 (ucast (s ! 5)) OR push_bit 48 (ucast (s ! 6)) OR
     push_bit 56 (ucast (s ! 7))"

text \<open>
  Bit \<open>p\<close> of an 8-byte block, and the value of its nibble \<open>g\<close> (bits \<open>4g\<close> to \<open>4g + 3\<close>):
  the low or the high half of byte \<open>g div 2\<close>.
\<close>

definition blk_bit :: "uint8_t list \<Rightarrow> nat \<Rightarrow> bool" where
  "blk_bit s p = bit (s ! (p div 8)) (p mod 8)"

definition nibble :: "uint8_t list \<Rightarrow> nat \<Rightarrow> nat" where
  "nibble s g =
     (if even g then unat (s ! (g div 2) AND 0xf) else unat (drop_bit 4 (s ! (g div 2))))"

text \<open>
  A bit-sliced state carries 32 blocks: it has 64 planes, and lane \<open>j\<close> of plane \<open>p\<close> is
  bit \<open>p\<close> of block \<open>j\<close>.
\<close>

definition sliced :: "bs_reg_t list \<Rightarrow> uint8_t list list \<Rightarrow> bool" where
  "sliced st blocks \<longleftrightarrow>
     length st = 64 \<and> length blocks = 32 \<and> (\<forall>b\<in>set blocks. length b = 8) \<and>
     (\<forall>p<64. \<forall>j<32. bit (st ! p) j = blk_bit (blocks ! j) p)"

section \<open>The round structure in the specification's words\<close>

text \<open>
  One round: mix the round key, substitute, permute, and advance the key schedule with
  the round's number. The cipher is the rounds numbered 1 to 31, the list \<open>[1..<32]\<close>, in
  rising order, and then one more mixing of the round key; the key schedule alone is its
  31 steps with the counters 1 to 31.
\<close>

definition round_step :: "nat \<Rightarrow> uint8_t list \<times> uint8_t list \<Rightarrow> uint8_t list \<times> uint8_t list" where
  "round_step i = (\<lambda>(pt, key).
     (pbox_layer (sbox_layer (add_round_key pt (drop 2 key))), update_round_key key (of_nat i)))"

definition round_step_bs :: "nat \<Rightarrow> bs_reg_t list \<times> uint8_t list \<Rightarrow> bs_reg_t list \<times> uint8_t list" where
  "round_step_bs i = (\<lambda>(state, key).
     (pbox_layer_bs (sbox_layer_bs (add_round_key_bs state (drop 2 key))),
      update_round_key key (of_nat i)))"

definition key_schedule_31 :: "uint8_t list \<Rightarrow> uint8_t list" where
  "key_schedule_31 key = fold (\<lambda>i key. update_round_key key (of_nat i)) [1..<32] key"

definition rounds_spec :: "uint8_t list \<Rightarrow> uint8_t list \<Rightarrow> uint8_t list \<times> uint8_t list" where
  "rounds_spec pt key =
     (case fold round_step [1..<32] (pt, key) of
        (pt', key') \<Rightarrow> (add_round_key pt' (drop 2 key'), key'))"

definition rounds_spec_bs :: "uint8_t list \<Rightarrow> uint8_t list \<Rightarrow> uint8_t list \<times> uint8_t list" where
  "rounds_spec_bs pt key =
     (case fold round_step_bs [1..<32] (enslice pt (replicate CRYPTO_IN_SIZE_BIT 0), key) of
        (state', key') \<Rightarrow> (unslice (add_round_key_bs state' (drop 2 key')) pt, key'))"

section \<open>The substitution table and the bit-sliced boolean functions\<close>

lemma BS_INV_minus1: "BS_INV = - 1"
  by (simp add: BS_INV_def)

lemma upt16: "[0..<16] = [0,1,2,3,4,5,6,7,8,9,10,11,12,13,14,15]"
  by (simp add: upt_conv_Cons)

lemma nat_lt_16_cases:
  assumes "(x::nat) < 16"
  shows "x \<in> {0,1,2,3,4,5,6,7,8,9,10,11,12,13,14,15}"
proof -
  from assms have "x \<in> set [0..<16]" by simp
  then show ?thesis unfolding upt16 by simp
qed

text \<open>
  Claim C9. The table \<^verbatim>\<open>sbox\<close> has sixteen entries, no entry occurs twice, and the
  values of its entries are exactly the numbers 0 to 15: the table is a permutation of
  \<open>{0,...,15}\<close>.
\<close>

theorem sbox_permutation:
  "length sbox = 16 \<and> distinct sbox \<and> unat ` set sbox = {0..<16}"
proof -
  have "unat ` set sbox = {0..<16}"
    unfolding sbox_def
    by (simp add: atLeastLessThan_upt upt16 del: set_upt) (simp add: insert_commute)
  moreover have "length sbox = 16" and "distinct sbox"
    by (simp_all add: sbox_def)
  ultimately show ?thesis
    by (simp only: simp_thms)
qed

lemma sbox_lanes:
  fixes x :: nat
  assumes "x < 16" and "j < 32"
    and "bit x0 j = bit x 0" and "bit x1 j = bit x 1"
    and "bit x2 j = bit x 2" and "bit x3 j = bit x 3"
  shows "bit (sbox0 x0 x1 x2 x3) j = bit (sbox ! x) 0 \<and>
         bit (sbox1 x0 x1 x2 x3) j = bit (sbox ! x) 1 \<and>
         bit (sbox2 x0 x1 x2 x3) j = bit (sbox ! x) 2 \<and>
         bit (sbox3 x0 x1 x2 x3) j = bit (sbox ! x) 3"
  using nat_lt_16_cases [OF assms(1)] assms(2-)
  apply (simp only: insert_iff empty_iff)
  apply (elim disjE)
                 apply (simp_all add: sbox_def sbox0_def sbox1_def sbox2_def sbox3_def
      BS_INV_minus1 Let_def bit_simps)
  done

text \<open>
  Claim C3. Take any 4-bit input \<open>x\<close> in \<open>[0,15]\<close> and any lane \<open>j\<close> of the 32-bit
  registers, and let the four input planes carry \<open>x\<close> in that lane (plane \<open>i\<close> holds
  bit \<open>i\<close> of \<open>x\<close>). Then lane \<open>j\<close> of the four output planes \<^verbatim>\<open>sbox0\<close> .. \<^verbatim>\<open>sbox3\<close> holds
  the table entry \<open>sbox[x]\<close>, output plane \<open>i\<close> carrying its bit \<open>i\<close>.
\<close>

theorem sbox_bitsliced_conformance:
  fixes x :: nat
  assumes "x < 16" and "j < 32"
    and "bit x0 j = bit x 0" and "bit x1 j = bit x 1"
    and "bit x2 j = bit x 2" and "bit x3 j = bit x 3"
  shows "bit (sbox0 x0 x1 x2 x3) j = bit (sbox ! x) 0 \<and>
         bit (sbox1 x0 x1 x2 x3) j = bit (sbox ! x) 1 \<and>
         bit (sbox2 x0 x1 x2 x3) j = bit (sbox ! x) 2 \<and>
         bit (sbox3 x0 x1 x2 x3) j = bit (sbox ! x) 3"
  using assms by (rule sbox_lanes)

theorem sbox_bitsliced_conformance_witness:
  "(5::nat) < 16 \<and> (3::nat) < 32 \<and>
   bit (8 :: bs_reg_t) 3 = bit (5::nat) 0 \<and> bit (0 :: bs_reg_t) 3 = bit (5::nat) 1 \<and>
   bit (8 :: bs_reg_t) 3 = bit (5::nat) 2 \<and> bit (0 :: bs_reg_t) 3 = bit (5::nat) 3 \<and>
   bit (sbox0 8 0 8 0) 3 = bit (sbox ! 5) 0 \<and>
   bit (sbox1 8 0 8 0) 3 = bit (sbox ! 5) 1 \<and>
   bit (sbox2 8 0 8 0) 3 = bit (sbox ! 5) 2 \<and>
   bit (sbox3 8 0 8 0) 3 = bit (sbox ! 5) 3"
  using sbox_bitsliced_conformance [of 5 3 8 0 8 0]
  by (simp add: bit_Suc_0_iff)

section \<open>The bit permutation\<close>

lemma pbox_pos_lt: "b < 64 \<Longrightarrow> pbox_pos b < 64"
proof -
  assume "b < 64"
  then have "b div 4 < 16" by simp
  moreover have "b mod 4 < 4" by simp
  ultimately show ?thesis unfolding pbox_pos_def by linarith
qed

lemma pbox_pos_inv: "b < 64 \<Longrightarrow> (pbox_pos b mod 16) * 4 + pbox_pos b div 16 = b"
proof -
  assume "b < 64"
  then have q: "b div 4 < 16" by simp
  then have "pbox_pos b mod 16 = b div 4" and "pbox_pos b div 16 = b mod 4"
    by (simp_all add: pbox_pos_def)
  then show ?thesis by simp
qed

lemma pbox_pos_inv': "c < 64 \<Longrightarrow> pbox_pos ((c mod 16) * 4 + c div 16) = c"
proof -
  assume "c < 64"
  then have q: "c div 16 < 4" by simp
  then have "((c mod 16) * 4 + c div 16) div 4 = c mod 16"
    and "((c mod 16) * 4 + c div 16) mod 4 = c div 16"
    by simp_all
  then show ?thesis by (simp add: pbox_pos_def)
qed

lemma pbox_pos_inv_lt: "(c::nat) < 64 \<Longrightarrow> (c mod 16) * 4 + c div 16 < 64"
proof -
  assume "c < 64"
  then have "c div 16 < 4" by simp
  moreover have "c mod 16 < 16" by simp
  ultimately show ?thesis by linarith
qed

text \<open>
  Claim C8. The position map \<open>b \<mapsto> b div 4 + (b mod 4) * 16\<close>, which both
  \<^verbatim>\<open>pbox_layer\<close> functions compute into \<^verbatim>\<open>out\<close>, is a bijection of \<open>{0,...,63}\<close> onto
  itself: it is injective there and its image is all of \<open>{0,...,63}\<close>.
\<close>

theorem pbox_pos_bijection: "bij_betw pbox_pos {0..<64} {0..<64}"
proof (rule bij_betw_byWitness [where f' = "\<lambda>c::nat. (c mod 16) * 4 + c div 16"])
  show "\<forall>a\<in>{0..<64}. pbox_pos a mod 16 * 4 + pbox_pos a div 16 = a"
    by (simp add: pbox_pos_inv)
  show "\<forall>a'\<in>{0..<64}. pbox_pos (a' mod 16 * 4 + a' div 16) = a'"
    by (simp add: pbox_pos_inv')
  show "pbox_pos ` {0..<64} \<subseteq> {0..<64}"
    using pbox_pos_lt by (simp add: image_subset_iff)
  show "(\<lambda>c::nat. c mod 16 * 4 + c div 16) ` {0..<64} \<subseteq> {0..<64}"
    using pbox_pos_inv_lt by (simp add: image_subset_iff)
qed

section \<open>Small case analyses and arrays written one entry per turn\<close>

lemma upt8: "[0..<8] = [0,1,2,3,4,5,6,7]"
  by (simp add: upt_conv_Cons)

lemma upt10: "[0..<10] = [0,1,2,3,4,5,6,7,8,9]"
  by (simp add: upt_conv_Cons)

lemma nat_lt_8_cases:
  assumes "(x::nat) < 8"
  shows "x \<in> {0,1,2,3,4,5,6,7}"
proof -
  from assms have "x \<in> set [0..<8]" by simp
  then show ?thesis unfolding upt8 by simp
qed

lemma nat_lt_10_cases:
  assumes "(x::nat) < 10"
  shows "x \<in> {0,1,2,3,4,5,6,7,8,9}"
proof -
  from assms have "x \<in> set [0..<10]" by simp
  then show ?thesis unfolding upt10 by simp
qed

lemma not_bit8: "8 \<le> n \<Longrightarrow> bit (w :: uint8_t) n = False"
  by (auto dest: bit_imp_le_length)

lemma list10_explicit:
  assumes "length key = 10"
  shows "key = [key ! 0, key ! 1, key ! 2, key ! 3, key ! 4, key ! 5, key ! 6, key ! 7, key ! 8, key ! 9]"
proof -
  have "key = map ((!) key) [0..<length key]"
    by (simp add: map_nth)
  then show ?thesis
    unfolding assms upt10 by simp
qed

lemma length_fold_upd:
  "length (fold (\<lambda>i xs. xs[h i xs := G i xs]) js xs) = length xs"
  by (induction js arbitrary: xs) simp_all

lemma nth_fold_upd:
  assumes "n \<le> length xs" and "j < length xs"
  shows "fold (\<lambda>i xs. xs[i := g i (xs ! i)]) [0..<n] xs ! j = (if j < n then g j (xs ! j) else xs ! j)"
  using assms
proof (induction n arbitrary: j)
  case 0
  then show ?case by simp
next
  case (Suc n)
  let ?ys = "fold (\<lambda>i xs. xs[i := g i (xs ! i)]) [0..<n] xs"
  have len: "length ?ys = length xs"
    by (rule length_fold_upd [where h = "\<lambda>i xs. i" and G = "\<lambda>i xs. g i (xs ! i)"])
  from Suc have IH: "\<And>k. k < length xs \<Longrightarrow> ?ys ! k = (if k < n then g k (xs ! k) else xs ! k)"
    by simp
  from Suc.prems have n: "n < length xs" by simp
  show ?case
    using Suc.prems n IH [of j] IH [of n] len
    by (simp add: nth_list_update less_Suc_eq)
qed

section \<open>Bits of the registers\<close>

lemma bit_key_reg_byte:
  assumes "q < 10" and "r < 8"
  shows "bit (key_reg key) (8 * q + r) = bit (key ! q) r"
  using nat_lt_10_cases [OF assms(1)] assms(2)
  apply (simp only: insert_iff empty_iff)
  apply (elim disjE)
           apply (simp_all add: key_reg_def bit_simps not_bit8)
  done

lemma bit_key_reg:
  "bit (key_reg key) n = (n < 80 \<and> bit (key ! (n div 8)) (n mod 8))"
proof (cases "n < 80")
  case True
  then have "n div 8 < 10" and "n mod 8 < 8" by simp_all
  from bit_key_reg_byte [OF this, of key] True show ?thesis by simp
next
  case False
  then show ?thesis by (auto dest: bit_imp_le_length)
qed

lemma bit_state_reg_byte:
  assumes "q < 8" and "r < 8"
  shows "bit (state_reg s) (8 * q + r) = bit (s ! q) r"
  using nat_lt_8_cases [OF assms(1)] assms(2)
  apply (simp only: insert_iff empty_iff)
  apply (elim disjE)
         apply (simp_all add: state_reg_def bit_simps not_bit8)
  done

lemma bit_state_reg:
  "bit (state_reg s) n = (n < 64 \<and> bit (s ! (n div 8)) (n mod 8))"
proof (cases "n < 64")
  case True
  then have "n div 8 < 8" and "n mod 8 < 8" by simp_all
  from bit_state_reg_byte [OF this, of s] True show ?thesis by simp
next
  case False
  then show ?thesis by (auto dest: bit_imp_le_length)
qed

section \<open>Round-key addition\<close>

lemma length_add_round_key: "length (add_round_key pt rk) = length pt"
  unfolding add_round_key_def
  by (rule length_fold_upd [where h = "\<lambda>i xs. i" and G = "\<lambda>i xs. xs ! i XOR rk ! i"])

lemma nth_add_round_key:
  assumes "length pt = 8" and "i < 8"
  shows "add_round_key pt rk ! i = pt ! i XOR rk ! i"
  unfolding add_round_key_def
  using nth_fold_upd [of 8 pt i "\<lambda>i x. x XOR rk ! i"] assms by simp

text \<open>
  In terms of the registers: \<^verbatim>\<open>add_round_key\<close> with the key buffer from its third byte on
  XORs bits 16 to 79 of the key register into the block.
\<close>

lemma state_reg_add_round_key:
  assumes "length pt = 8" and "length key = 10"
  shows "state_reg (add_round_key pt (drop 2 key)) =
         state_reg pt XOR ucast (drop_bit 16 (key_reg key))"
proof (rule bit_word_eqI)
  fix n
  assume "n < LENGTH(64)"
  then have n: "n < 64" by simp
  then have q: "n div 8 < 8" by simp
  have "(n + 2 * 8) mod 8 = n mod 8"
    by (rule mod_mult_self1)
  then have d: "(16 + n) div 8 = Suc (Suc (n div 8))" "(16 + n) mod 8 = n mod 8"
    by (simp_all add: add.commute div_add1_eq)
  show "bit (state_reg (add_round_key pt (drop 2 key))) n =
        bit (state_reg pt XOR ucast (drop_bit 16 (key_reg key))) n"
    using n q assms
    by (simp add: bit_state_reg bit_key_reg nth_add_round_key bit_simps d)
qed

section \<open>The key schedule\<close>

lemma key_rotate_explicit:
  "key_rotate [k0, k1, k2, k3, k4, k5, k6, k7, k8, k9] =
     [drop_bit 3 k2 OR push_bit 5 k3, drop_bit 3 k3 OR push_bit 5 k4,
      drop_bit 3 k4 OR push_bit 5 k5, drop_bit 3 k5 OR push_bit 5 k6,
      drop_bit 3 k6 OR push_bit 5 k7, drop_bit 3 k7 OR push_bit 5 k8,
      drop_bit 3 k8 OR push_bit 5 k9, drop_bit 3 k9 OR push_bit 5 k0,
      drop_bit 3 k0 OR push_bit 5 k1, drop_bit 3 k1 OR push_bit 5 k2]"
  by (simp add: key_rotate_def)

lemma bit_key_rotate_explicit:
  assumes "q < 10" and "r < 8"
  shows "bit (key_rotate [k0, k1, k2, k3, k4, k5, k6, k7, k8, k9] ! q) r =
         bit ([k0, k1, k2, k3, k4, k5, k6, k7, k8, k9] ! ((8 * q + r + 19) mod 80 div 8))
             ((8 * q + r + 19) mod 80 mod 8)"
  using nat_lt_10_cases [OF assms(1)] nat_lt_8_cases [OF assms(2)]
  unfolding key_rotate_explicit
  apply (simp only: insert_iff empty_iff)
  apply (elim disjE)
  apply (simp_all add: bit_simps not_bit8)
  done

text \<open>
  Claim C5, as stated: step 1 rotates the register right by 61 bit positions, that is
  left by 19. It fails for the register of value 1 (\<^verbatim>\<open>key[0] = 1\<close>, all other bytes
  zero): the code moves its one set bit to position 61, a rotation right by 61 (left by
  19) moves it to position 19.
\<close>

theorem key_rotate_right_61_counterexample:
  "key_reg (key_rotate [1, 0, 0, 0, 0, 0, 0, 0, 0, 0]) \<noteq>
     word_rotr 61 (key_reg [1, 0, 0, 0, 0, 0, 0, 0, 0, 0]) \<and>
   key_reg (key_rotate [1, 0, 0, 0, 0, 0, 0, 0, 0, 0]) \<noteq>
     word_rotl 19 (key_reg [1, 0, 0, 0, 0, 0, 0, 0, 0, 0])"
proof -
  let ?k = "[1, 0, 0, 0, 0, 0, 0, 0, 0, 0] :: uint8_t list"
  have l: "bit (key_reg (key_rotate ?k)) 61"
    by (simp add: bit_key_reg key_rotate_explicit bit_simps)
  have r: "\<not> bit (word_rotr 61 (key_reg ?k)) 61" "\<not> bit (word_rotl 19 (key_reg ?k)) 61"
    by (simp_all add: bit_key_reg bit_word_rotr_iff bit_word_rotl_iff)
  from l r show ?thesis
    by metis
qed

text \<open>
  Claim C5, amended. Step 1 of \<^verbatim>\<open>update_round_key\<close> (the ten assignments under the
  source's comment "rotate right by 19 bit") rotates the 80-bit key register, \<^verbatim>\<open>key[0]\<close>
  least significant and \<^verbatim>\<open>key[9]\<close> most significant, right by 19 bit positions,
  equivalently left by 61, before the top-nibble substitution and the counter XOR.
\<close>

theorem key_rotate_right_19:
  assumes "length key = 10"
  shows "key_reg (key_rotate key) = word_rotr 19 (key_reg key) \<and>
         key_reg (key_rotate key) = word_rotl 61 (key_reg key)"
proof -
  have "key_reg (key_rotate key) = word_rotr 19 (key_reg key)"
  proof (rule bit_word_eqI)
    fix n
    assume "n < LENGTH(80)"
    then have n: "n < 80" by simp
    then have q: "n div 8 < 10" and r: "n mod 8 < 8" by simp_all
    have e: "8 * (n div 8) + n mod 8 = n" by simp
    obtain k0 k1 k2 k3 k4 k5 k6 k7 k8 k9
      where key: "key = [k0, k1, k2, k3, k4, k5, k6, k7, k8, k9]"
      using list10_explicit [OF assms] by blast
    have "bit (key_rotate key ! (n div 8)) (n mod 8) =
          bit (key ! ((n + 19) mod 80 div 8)) ((n + 19) mod 80 mod 8)"
      unfolding key using bit_key_rotate_explicit [OF q r] by (simp only: e)
    then show "bit (key_reg (key_rotate key)) n = bit (word_rotr 19 (key_reg key)) n"
      using n by (simp add: bit_key_reg bit_word_rotr_iff)
  qed
  moreover have "word_rotl 61 (key_reg key) = word_rotr 19 (key_reg key)"
    by (simp add: word_rotl_eq_word_rotr)
  ultimately show ?thesis
    by simp
qed

theorem key_rotate_right_19_witness:
  "length [1, 0, 0, 0, 0, 0, 0, 0, 0, 0 :: uint8_t] = 10 \<and>
   key_reg (key_rotate [1, 0, 0, 0, 0, 0, 0, 0, 0, 0]) =
     word_rotr 19 (key_reg [1, 0, 0, 0, 0, 0, 0, 0, 0, 0]) \<and>
   key_reg (key_rotate [1, 0, 0, 0, 0, 0, 0, 0, 0, 0]) =
     word_rotl 61 (key_reg [1, 0, 0, 0, 0, 0, 0, 0, 0, 0])"
proof -
  have len: "length [1, 0, 0, 0, 0, 0, 0, 0, 0, 0 :: uint8_t] = 10"
    by simp
  from key_rotate_right_19 [OF len] len show ?thesis
    by blast
qed

lemma bit_le31:
  assumes "(r :: uint8_t) \<le> 31" and "5 \<le> n"
  shows "\<not> bit r n"
proof -
  from assms(1) have "r < 2 ^ 5"
    by (simp add: word_le_nat_alt word_less_nat_alt)
  then have "take_bit 5 r = r"
    using less_mask_eq [of r 5] by (simp add: take_bit_eq_mask)
  then have "bit r n = bit (take_bit 5 r) n"
    by simp
  with assms(2) show ?thesis
    by (simp add: bit_take_bit_iff)
qed

lemma key_counter_explicit:
  "key_counter [k0, k1, k2, k3, k4, k5, k6, k7, k8, k9] r =
     [k0, k1 XOR push_bit 7 r, k2 XOR drop_bit 1 r, k3, k4, k5, k6, k7, k8, k9]"
  by (simp add: key_counter_def)

lemma bit_key_counter_explicit:
  assumes "q < 10" and "m < 8" and "r \<le> 31"
  shows "bit (key_counter [k0, k1, k2, k3, k4, k5, k6, k7, k8, k9] r ! q) m =
         (bit ([k0, k1, k2, k3, k4, k5, k6, k7, k8, k9] ! q) m \<noteq>
          (15 \<le> 8 * q + m \<and> 8 * q + m \<le> 19 \<and> bit r (8 * q + m - 15)))"
proof -
  have hi: "\<not> bit r 5" "\<not> bit r 6" "\<not> bit r 7"
    by (rule bit_le31 [OF assms(3)], simp)+
  show ?thesis
    using nat_lt_10_cases [OF assms(1)] nat_lt_8_cases [OF assms(2)]
    unfolding key_counter_explicit
    apply (simp only: insert_iff empty_iff)
    apply (elim disjE)
    apply (simp_all add: bit_simps not_bit8 hi numeral_2_eq_2 [symmetric] numeral_3_eq_3 [symmetric])
    done
qed

text \<open>
  Claim C7. For a round counter \<open>r\<close> in \<open>[1,31]\<close>, step 3 of \<^verbatim>\<open>update_round_key\<close> (the two
  assignments under the comment "XOR round counter k19 ... k15") flips bit \<open>n\<close> of the
  80-bit key register exactly when \<open>15 \<le> n \<le> 19\<close> and bit \<open>n - 15\<close> of \<open>r\<close> is set: counter
  bit \<open>k\<close> is XORed into register bit \<open>15 + k\<close>, and every other register bit keeps its
  value.
\<close>

theorem key_counter_bits:
  assumes "length key = 10" and "1 \<le> r" and "r \<le> 31" and "n < 80"
  shows "bit (key_reg (key_counter key r)) n =
         (bit (key_reg key) n \<noteq> (15 \<le> n \<and> n \<le> 19 \<and> bit r (n - 15)))"
proof -
  from assms(4) have q: "n div 8 < 10" and m: "n mod 8 < 8" by simp_all
  have e: "8 * (n div 8) + n mod 8 = n" by simp
  obtain k0 k1 k2 k3 k4 k5 k6 k7 k8 k9
    where key: "key = [k0, k1, k2, k3, k4, k5, k6, k7, k8, k9]"
    using list10_explicit [OF assms(1)] by blast
  show ?thesis
    unfolding key using bit_key_counter_explicit [OF q m assms(3)] assms(4)
    by (simp only: e bit_key_reg) simp
qed

theorem key_counter_bits_witness:
  "length [0, 0, 0, 0, 0, 0, 0, 0, 0, 0 :: uint8_t] = 10 \<and> (1 :: uint8_t) \<le> 21 \<and>
   (21 :: uint8_t) \<le> 31 \<and> (17 :: nat) < 80 \<and>
   bit (key_reg (key_counter [0, 0, 0, 0, 0, 0, 0, 0, 0, 0] 21)) 17 =
   (bit (key_reg [0, 0, 0, 0, 0, 0, 0, 0, 0, 0]) 17 \<noteq>
     (15 \<le> (17 :: nat) \<and> (17 :: nat) \<le> 19 \<and> bit (21 :: uint8_t) (17 - 15)))"
  using key_counter_bits [of "[0, 0, 0, 0, 0, 0, 0, 0, 0, 0]" 21 17]
  by simp

section \<open>The round loop\<close>

lemma unat_of_nat_small: "i < 256 \<Longrightarrow> unat (of_nat i :: uint8_t) = i"
  by (simp add: unat_of_nat)

lemma crypto_loop_fold:
  assumes "i \<le> 32"
  shows "crypto_loop (of_nat i) pt key = fold round_step [i..<32] (pt, key)"
  using assms
proof (induction "32 - i" arbitrary: i pt key)
  case 0
  then have i: "i = 32" by simp
  have "\<not> (32 :: uint8_t) \<le> 31"
    by simp
  then show ?case
    unfolding i by (subst crypto_loop.simps) simp
next
  case (Suc k)
  then have i: "i < 32" by simp
  then have le: "(of_nat i :: uint8_t) \<le> 31"
    by (simp add: word_le_nat_alt unat_of_nat_small)
  have step: "crypto_loop (of_nat (Suc i)) (pbox_layer (sbox_layer (add_round_key pt (drop 2 key))))
                (update_round_key key (of_nat i)) =
              fold round_step [Suc i..<32]
                (pbox_layer (sbox_layer (add_round_key pt (drop 2 key))), update_round_key key (of_nat i))"
    using Suc.hyps(2) i by (intro Suc.hyps(1)) simp_all
  have "crypto_loop (of_nat i) pt key =
        crypto_loop (of_nat i + 1) (pbox_layer (sbox_layer (add_round_key pt (drop 2 key))))
          (update_round_key key (of_nat i))"
    using le by (subst crypto_loop.simps) (simp only: if_True)
  also have "(of_nat i :: uint8_t) + 1 = of_nat (Suc i)"
    by simp
  finally have "crypto_loop (of_nat i) pt key =
      fold round_step [Suc i..<32]
        (pbox_layer (sbox_layer (add_round_key pt (drop 2 key))), update_round_key key (of_nat i))"
    by (simp only: step)
  moreover have "[i..<32] = i # [Suc i..<32]"
    using i by (rule upt_conv_Cons)
  ultimately show ?case
    by (simp add: round_step_def)
qed

lemma crypto_loop_bs_fold:
  assumes "i \<le> 32"
  shows "crypto_loop_bs (of_nat i) state key = fold round_step_bs [i..<32] (state, key)"
  using assms
proof (induction "32 - i" arbitrary: i state key)
  case 0
  then have i: "i = 32" by simp
  have "\<not> (32 :: uint8_t) \<le> 31"
    by simp
  then show ?case
    unfolding i by (subst crypto_loop_bs.simps) simp
next
  case (Suc k)
  then have i: "i < 32" by simp
  then have le: "(of_nat i :: uint8_t) \<le> 31"
    by (simp add: word_le_nat_alt unat_of_nat_small)
  let ?state = "pbox_layer_bs (sbox_layer_bs (add_round_key_bs state (drop 2 key)))"
  have step: "crypto_loop_bs (of_nat (Suc i)) ?state (update_round_key key (of_nat i)) =
              fold round_step_bs [Suc i..<32] (?state, update_round_key key (of_nat i))"
    using Suc.hyps(2) i by (intro Suc.hyps(1)) simp_all
  have "crypto_loop_bs (of_nat i) state key =
        crypto_loop_bs (of_nat i + 1) ?state (update_round_key key (of_nat i))"
    using le by (subst crypto_loop_bs.simps) (simp only: if_True)
  also have "(of_nat i :: uint8_t) + 1 = of_nat (Suc i)"
    by simp
  finally have "crypto_loop_bs (of_nat i) state key =
      fold round_step_bs [Suc i..<32] (?state, update_round_key key (of_nat i))"
    by (simp only: step)
  moreover have "[i..<32] = i # [Suc i..<32]"
    using i by (rule upt_conv_Cons)
  ultimately show ?case
    by (simp add: round_step_bs_def)
qed

lemma crypto_loop_1: "crypto_loop 1 pt key = fold round_step [1..<32] (pt, key)"
proof -
  have "crypto_loop (of_nat 1) pt key = fold round_step [1..<32] (pt, key)"
    by (rule crypto_loop_fold) simp
  then show ?thesis
    by (simp only: of_nat_1)
qed

lemma crypto_loop_bs_1: "crypto_loop_bs 1 state key = fold round_step_bs [1..<32] (state, key)"
proof -
  have "crypto_loop_bs (of_nat 1) state key = fold round_step_bs [1..<32] (state, key)"
    by (rule crypto_loop_bs_fold) simp
  then show ?thesis
    by (simp only: of_nat_1)
qed

lemma crypto_func_rounds: "crypto_func pt key = rounds_spec pt key"
  by (simp only: crypto_func_def rounds_spec_def crypto_loop_1)

lemma crypto_func_bs_rounds: "crypto_func_bs pt key = rounds_spec_bs pt key"
  by (simp only: crypto_func_bs_def rounds_spec_bs_def crypto_loop_bs_1 Let_def)

lemma snd_fold_round_step:
  "snd (fold round_step js (pt, key)) = fold (\<lambda>i key. update_round_key key (of_nat i)) js key"
  by (induction js arbitrary: pt key) (simp_all add: round_step_def)

lemma snd_fold_round_step_bs:
  "snd (fold round_step_bs js (state, key)) = fold (\<lambda>i key. update_round_key key (of_nat i)) js key"
  by (induction js arbitrary: state key) (simp_all add: round_step_bs_def)

lemma snd_crypto_func: "snd (crypto_func pt key) = key_schedule_31 key"
proof -
  obtain p k where f: "fold round_step [1..<32] (pt, key) = (p, k)"
    by (cases "fold round_step [1..<32] (pt, key)")
  have "k = key_schedule_31 key"
    using snd_fold_round_step [of "[1..<32]" pt key]
    unfolding f key_schedule_31_def by (simp only: snd_conv)
  then show ?thesis
    unfolding crypto_func_rounds rounds_spec_def f by (simp only: prod.case snd_conv)
qed

lemma snd_crypto_func_bs: "snd (crypto_func_bs pt key) = key_schedule_31 key"
proof -
  let ?s = "enslice pt (replicate CRYPTO_IN_SIZE_BIT 0)"
  obtain p k where f: "fold round_step_bs [1..<32] (?s, key) = (p, k)"
    by (cases "fold round_step_bs [1..<32] (?s, key)")
  have "k = key_schedule_31 key"
    using snd_fold_round_step_bs [of "[1..<32]" ?s key]
    unfolding f key_schedule_31_def by (simp only: snd_conv)
  then show ?thesis
    unfolding crypto_func_bs_rounds rounds_spec_bs_def f by (simp only: prod.case snd_conv)
qed

text \<open>
  Claim C6. Both \<^verbatim>\<open>crypto_func\<close> functions, with their loop \<^verbatim>\<open>for(i = 1; i <= 31; i++)\<close>
  on a \<^verbatim>\<open>uint8_t\<close> counter, compute what the specification describes: the 31 rounds with
  the numbers 1, 2, ..., 31 in this order, each one mixing the round key, substituting,
  permuting and advancing the key schedule with the round's number, and then one final
  mixing of the round key with no substitution or permutation after it (the bit-sliced
  function between \<^verbatim>\<open>enslice\<close> and \<^verbatim>\<open>unslice\<close>). The key buffer they return is the
  initial key after the 31 key-schedule steps with the counters 1 to 31. The list of
  round numbers \<open>[1..<32]\<close> is written out in the last line.
\<close>

theorem crypto_func_round_structure:
  "crypto_func pt key = rounds_spec pt key \<and>
   crypto_func_bs pt' key = rounds_spec_bs pt' key \<and>
   snd (crypto_func pt key) = key_schedule_31 key \<and>
   snd (crypto_func_bs pt' key) = key_schedule_31 key \<and>
   [1..<32] = [1, 2, 3, 4, 5, 6, 7, 8, 9, 10, 11, 12, 13, 14, 15, 16, 17, 18, 19, 20,
               21, 22, 23, 24, 25, 26, 27, 28, 29, 30, 31]"
proof (intro conjI)
  show "crypto_func pt key = rounds_spec pt key"
    by (rule crypto_func_rounds)
  show "crypto_func_bs pt' key = rounds_spec_bs pt' key"
    by (rule crypto_func_bs_rounds)
  show "snd (crypto_func pt key) = key_schedule_31 key"
    by (rule snd_crypto_func)
  show "snd (crypto_func_bs pt' key) = key_schedule_31 key"
    by (rule snd_crypto_func_bs)
  show "[1..<32] = [1, 2, 3, 4, 5, 6, 7, 8, 9, 10, 11, 12, 13, 14, 15, 16, 17, 18, 19, 20,
                    21, 22, 23, 24, 25, 26, 27, 28, 29, 30, 31]"
    by (simp add: upt_conv_Cons)
qed

text \<open>
  Claim C10. The key buffer that \<^verbatim>\<open>crypto_func\<close> leaves depends on the initial key only:
  two runs of the scalar function, or of the bit-sliced one, on any two plaintext buffers
  and the same key return the same key buffer, and the scalar and the bit-sliced function
  return the same one.
\<close>

theorem final_key_independent_of_plaintext:
  "snd (crypto_func pt1 key) = snd (crypto_func pt2 key) \<and>
   snd (crypto_func_bs pt3 key) = snd (crypto_func_bs pt4 key) \<and>
   snd (crypto_func_bs pt3 key) = snd (crypto_func pt1 key)"
  by (simp only: snd_crypto_func snd_crypto_func_bs simp_thms)

section \<open>The bit transpose\<close>

lemma fold_upt_Suc: "fold F [0..<Suc n] a = F n (fold F [0..<n] a)"
  by simp

lemma bit_push_and_1:
  "bit (push_bit n (x AND 1) :: 'a::len word) j = (j = n \<and> j < LENGTH('a) \<and> bit x 0)"
  by (auto simp: bit_simps)

lemma bit_fold_or_push32:
  "bit (fold (\<lambda>b temp. temp OR push_bit b (f b AND 1)) [0..<n] (0 :: bs_reg_t)) j =
     (j < n \<and> j < 32 \<and> bit (f j) 0)"
proof (induction n)
  case 0
  show ?case by simp
next
  case (Suc n)
  show ?case
    unfolding fold_upt_Suc bit_or_iff Suc bit_push_and_1
    by (auto simp: less_Suc_eq)
qed

lemma bit_ucast_push_and_1:
  "bit (ucast (push_bit n (x AND 1 :: bs_reg_t)) :: uint8_t) j = (j = n \<and> j < 8 \<and> bit x 0)"
  unfolding bit_ucast_iff bit_push_and_1 by auto

lemma bit_fold_or_push8:
  "bit (fold (\<lambda>b temp. temp OR ucast (push_bit b (f b AND 1 :: bs_reg_t))) [0..<n] (0 :: uint8_t)) j =
     (j < n \<and> j < 8 \<and> bit (f j) 0)"
proof (induction n)
  case 0
  show ?case by simp
next
  case (Suc n)
  show ?case
    unfolding fold_upt_Suc bit_or_iff Suc bit_ucast_push_and_1
    by (auto simp: less_Suc_eq)
qed

lemma length_enslice: "length (enslice pt s) = length s"
  unfolding enslice_def Let_def
  by (rule length_fold_upd [where h = "\<lambda>i xs. i"])

lemma length_unslice: "length (unslice st p) = length p"
  unfolding unslice_def Let_def
  by (rule length_fold_upd [where h = "\<lambda>i xs. i"])

lemma bit_enslice:
  assumes "length s = 64" and "i < 64" and "j < 32"
  shows "bit (enslice pt s ! i) j = bit (pt ! (i div 8 + j * 8)) (i mod 8)"
proof -
  let ?g = "\<lambda>i (x :: bs_reg_t). fold (\<lambda>b temp.
      temp OR push_bit b (ucast (drop_bit (i mod 8) (pt ! (i div 8 + b * 8))) AND 1))
      [0..<BITSLICE_WIDTH] 0"
  have "enslice pt s ! i = ?g i (s ! i)"
    unfolding enslice_def Let_def
    using nth_fold_upd [of 64 s i ?g] assms(1,2)
    by (simp add: CRYPTO_IN_SIZE_BIT_def CRYPTO_IN_SIZE_def)
  then have "bit (enslice pt s ! i) j =
      (j < 32 \<and> j < 32 \<and> bit (ucast (drop_bit (i mod 8) (pt ! (i div 8 + j * 8))) :: bs_reg_t) 0)"
    unfolding BITSLICE_WIDTH_def by (simp only: bit_fold_or_push32)
  then show ?thesis
    using assms(3) by (simp add: bit_simps)
qed

lemma bit_unslice:
  assumes "length p = 256" and "k < 256" and "b < 8"
  shows "bit (unslice st p ! k) b = bit (st ! ((k * 8) mod 64 + b)) (k div 8)"
proof -
  let ?g = "\<lambda>i (x :: uint8_t). fold (\<lambda>b temp.
      temp OR ucast (push_bit b
         (drop_bit (i div 8) (st ! ((i * 8) mod CRYPTO_IN_SIZE_BIT + b)) AND 1)))
      [0..<8] 0"
  have "unslice st p ! k = ?g k (p ! k)"
    unfolding unslice_def Let_def
    using nth_fold_upd [of 256 p k ?g] assms(1,2)
    by (simp add: CRYPTO_IN_SIZE_BIT_def CRYPTO_IN_SIZE_def BITSLICE_WIDTH_def)
  then have "bit (unslice st p ! k) b =
      (b < 8 \<and> b < 8 \<and> bit (drop_bit (k div 8) (st ! ((k * 8) mod CRYPTO_IN_SIZE_BIT + b))) 0)"
    by (simp only: bit_fold_or_push8)
  then show ?thesis
    using assms(3) by (simp add: bit_simps CRYPTO_IN_SIZE_BIT_def CRYPTO_IN_SIZE_def)
qed

lemma mult8_mod64: "(k * 8) mod 64 = (k mod 8) * (8::nat)"
proof -
  have "(k * 8) mod (8 * 8) = (k mod 8) * (8::nat)"
    by (simp only: mult_mod_left [symmetric])
  then show ?thesis by simp
qed

lemma plane_index:
  assumes "b < (8::nat)"
  shows "(k * 8) mod 64 + b < 64" and "((k * 8) mod 64 + b) div 8 = k mod 8"
    and "((k * 8) mod 64 + b) mod 8 = b"
proof -
  have "k mod 8 < 8" by simp
  then show "(k * 8) mod 64 + b < 64"
    unfolding mult8_mod64 using assms by linarith
  show "((k * 8) mod 64 + b) div 8 = k mod 8"
    unfolding mult8_mod64 using assms by simp
  show "((k * 8) mod 64 + b) mod 8 = b"
    unfolding mult8_mod64 using assms by simp
qed

lemma byte_index:
  assumes "i < (64::nat)" and "j < (32::nat)"
  shows "i div 8 + j * 8 < 256" and "((i div 8 + j * 8) * 8) mod 64 + i mod 8 = i"
    and "(i div 8 + j * 8) div 8 = j"
proof -
  from assms(1) have q: "i div 8 < 8" by simp
  with assms(2) show "i div 8 + j * 8 < 256" by linarith
  from q show "(i div 8 + j * 8) div 8 = j" by simp
  from q have "(i div 8 + j * 8) mod 8 = i div 8" by simp
  then show "((i div 8 + j * 8) * 8) mod 64 + i mod 8 = i"
    unfolding mult8_mod64 by simp
qed

text \<open>
  Claim C2. For every byte buffer \<open>x\<close> of \<open>8 * BITSLICE_WIDTH\<close> bytes, \<^verbatim>\<open>unslice\<close> of
  \<^verbatim>\<open>enslice\<close> of \<open>x\<close> is \<open>x\<close>, and for every array \<open>y\<close> of 64 bit-planes, \<^verbatim>\<open>enslice\<close> of
  \<^verbatim>\<open>unslice\<close> of \<open>y\<close> is \<open>y\<close>. Both functions write every entry of their output buffer;
  \<open>s\<close> and \<open>p\<close> are what the output buffers of \<^verbatim>\<open>enslice\<close> and \<^verbatim>\<open>unslice\<close> hold before the
  call, and the results do not depend on them.
\<close>

theorem slice_round_trip:
  assumes x: "length x = CRYPTO_IN_SIZE * BITSLICE_WIDTH" and y: "length y = CRYPTO_IN_SIZE_BIT"
    and s: "length s = CRYPTO_IN_SIZE_BIT" and p: "length p = CRYPTO_IN_SIZE * BITSLICE_WIDTH"
  shows "unslice (enslice x s) p = x \<and> enslice (unslice y p) s = y"
proof
  from x y s p have assms: "length x = 256" "length y = 64" "length s = 64" "length p = 256"
    by (simp_all add: CRYPTO_IN_SIZE_def CRYPTO_IN_SIZE_BIT_def BITSLICE_WIDTH_def)
  show "unslice (enslice x s) p = x"
  proof (rule nth_equalityI)
    show "length (unslice (enslice x s) p) = length x"
      using assms by (simp add: length_unslice)
  next
    fix k
    assume "k < length (unslice (enslice x s) p)"
    then have k: "k < 256" using assms by (simp add: length_unslice)
    then have l: "k div 8 < 32" by simp
    show "unslice (enslice x s) p ! k = x ! k"
    proof (rule bit_word_eqI)
      fix b
      assume "b < LENGTH(8)"
      then have b: "b < 8" by simp
      have "bit (unslice (enslice x s) p ! k) b =
            bit (enslice x s ! ((k * 8) mod 64 + b)) (k div 8)"
        by (rule bit_unslice [OF assms(4) k b])
      also have "\<dots> = bit (x ! (((k * 8) mod 64 + b) div 8 + k div 8 * 8)) (((k * 8) mod 64 + b) mod 8)"
        by (rule bit_enslice [OF assms(3) plane_index(1) [OF b] l])
      also have "\<dots> = bit (x ! k) b"
        by (simp only: plane_index(2,3) [OF b]) simp
      finally show "bit (unslice (enslice x s) p ! k) b = bit (x ! k) b" .
    qed
  qed
  show "enslice (unslice y p) s = y"
  proof (rule nth_equalityI)
    show "length (enslice (unslice y p) s) = length y"
      using assms by (simp add: length_enslice)
  next
    fix i
    assume "i < length (enslice (unslice y p) s)"
    then have i: "i < 64" using assms by (simp add: length_enslice)
    show "enslice (unslice y p) s ! i = y ! i"
    proof (rule bit_word_eqI)
      fix j
      assume "j < LENGTH(32)"
      then have j: "j < 32" by simp
      have r: "i mod 8 < 8" by simp
      have "bit (enslice (unslice y p) s ! i) j = bit (unslice y p ! (i div 8 + j * 8)) (i mod 8)"
        by (rule bit_enslice [OF assms(3) i j])
      also have "\<dots> = bit (y ! (((i div 8 + j * 8) * 8) mod 64 + i mod 8)) ((i div 8 + j * 8) div 8)"
        by (rule bit_unslice [OF assms(4) byte_index(1) [OF i j] r])
      also have "\<dots> = bit (y ! i) j"
        by (simp only: byte_index(2,3) [OF i j])
      finally show "bit (enslice (unslice y p) s ! i) j = bit (y ! i) j" .
    qed
  qed
qed


theorem slice_round_trip_witness:
  "length (map of_nat [0..<256] :: uint8_t list) = CRYPTO_IN_SIZE * BITSLICE_WIDTH \<and>
   length (map of_nat [0..<64] :: bs_reg_t list) = CRYPTO_IN_SIZE_BIT \<and>
   length (replicate 64 0 :: bs_reg_t list) = CRYPTO_IN_SIZE_BIT \<and>
   length (replicate 256 0 :: uint8_t list) = CRYPTO_IN_SIZE * BITSLICE_WIDTH \<and>
   unslice (enslice (map of_nat [0..<256]) (replicate 64 0)) (replicate 256 0) =
     map of_nat [0..<256] \<and>
   enslice (unslice (map of_nat [0..<64]) (replicate 256 0)) (replicate 64 0) =
     map of_nat [0..<64]"
proof -
  have h: "length (map of_nat [0..<256] :: uint8_t list) = CRYPTO_IN_SIZE * BITSLICE_WIDTH"
    "length (map of_nat [0..<64] :: bs_reg_t list) = CRYPTO_IN_SIZE_BIT"
    "length (replicate 64 0 :: bs_reg_t list) = CRYPTO_IN_SIZE_BIT"
    "length (replicate 256 0 :: uint8_t list) = CRYPTO_IN_SIZE * BITSLICE_WIDTH"
    by (simp_all add: CRYPTO_IN_SIZE_def CRYPTO_IN_SIZE_BIT_def BITSLICE_WIDTH_def)
  from slice_round_trip [OF h] h show ?thesis
    by blast
qed

section \<open>The scalar substitution layer, bit by bit\<close>

lemma and_0xf: "(w :: uint8_t) AND 0xf = take_bit 4 w"
  by (simp add: take_bit_eq_mask mask_numeral)

lemma bit_lt16:
  assumes "(w :: uint8_t) < 16" and "4 \<le> n"
  shows "\<not> bit w n"
proof -
  from assms(1) have "w < 2 ^ 4" by simp
  then have "take_bit 4 w = w"
    using less_mask_eq [of w 4] by (simp add: take_bit_eq_mask)
  then have "bit w n = bit (take_bit 4 w) n"
    by simp
  with assms(2) show ?thesis
    by (simp add: bit_take_bit_iff)
qed

lemma sbox_lt16:
  assumes "x < 16"
  shows "sbox ! x < 16"
  using nat_lt_16_cases [OF assms]
  apply (simp only: insert_iff empty_iff)
  apply (elim disjE)
  apply (simp_all add: sbox_def)
  done

lemma low_nibble_lt16: "unat ((w :: uint8_t) AND 0xf) < 16"
proof -
  have "unat (take_bit 4 w) < 2 ^ 4"
    by (simp only: unsigned_take_bit_eq) (rule take_bit_nat_less_exp)
  then show ?thesis by (simp add: and_0xf)
qed

lemma high_nibble_lt16: "unat (drop_bit 4 (w :: uint8_t)) < 16"
proof -
  have "unat w < 2 ^ 8" using unsigned_less [of w] by simp
  then have "unat w div 2 ^ 4 < 2 ^ 4" by simp
  then show ?thesis by (simp add: drop_bit_eq_div unat_div)
qed

lemma nibble_lt16: "nibble s g < 16"
  by (simp add: nibble_def low_nibble_lt16 high_nibble_lt16)

lemma nth_sbox_layer:
  assumes "length s = 8" and "i < 8"
  shows "sbox_layer s ! i =
         sbox ! unat (s ! i AND 0xf) OR push_bit 4 (sbox ! unat (drop_bit 4 (s ! i)))"
  unfolding sbox_layer_def Let_def
  using nth_fold_upd [of 8 s i "\<lambda>i x. sbox ! unat (x AND 0xf) OR push_bit 4 (sbox ! unat (drop_bit 4 x))"] assms
  by simp

lemma length_sbox_layer: "length (sbox_layer s) = length s"
  unfolding sbox_layer_def Let_def
  by (rule length_fold_upd [where h = "\<lambda>i xs. i"])

lemma odd_nibble_pos:
  assumes "u < (4::nat)"
  shows "(4 * (2 * i + 1) + u) div 8 = i" and "(4 * (2 * i + 1) + u) mod 8 = 4 + u"
proof -
  have e: "4 * (2 * i + 1) + u = (4 + u) + 8 * i"
    by simp
  have "((4 + u) + 8 * i) mod 8 = (4 + u) mod 8"
    by (rule mod_mult_self2)
  with assms show "(4 * (2 * i + 1) + u) mod 8 = 4 + u"
    unfolding e by simp
  have "((4 + u) + 8 * i) div 8 = (4 + u) div 8 + i"
    by (simp only: div_mult_self2 [of 8 "4 + u" i, simplified] add.commute)
  with assms show "(4 * (2 * i + 1) + u) div 8 = i"
    unfolding e by simp
qed

lemma bit_nibble:
  assumes "g < 16" and "u < 4"
  shows "bit (nibble s g) u = blk_bit s (4 * g + u)"
proof (cases "even g")
  case True
  then obtain i where g: "g = 2 * i" by (elim evenE)
  have d: "(4 * (2 * i) + u) div 8 = i" "(4 * (2 * i) + u) mod 8 = u"
    using assms(2) by simp_all
  show ?thesis
    using assms(2) unfolding g nibble_def blk_bit_def d
    by (simp add: and_0xf bit_unsigned_iff bit_take_bit_iff)
next
  case False
  then obtain i where g: "g = 2 * i + 1" by (elim oddE)
  note d = odd_nibble_pos [OF assms(2), of i]
  show ?thesis
    using assms(2) unfolding g nibble_def blk_bit_def d
    by (simp add: bit_unsigned_iff bit_drop_bit_eq)
qed

lemma blk_bit_sbox_layer:
  assumes "length s = 8" and "g < 16" and "t < 4"
  shows "blk_bit (sbox_layer s) (4 * g + t) = bit (sbox ! nibble s g) t"
proof (cases "even g")
  case True
  then obtain i where g: "g = 2 * i" by (elim evenE)
  with assms(2) have i: "i < 8" by simp
  have d: "(4 * (2 * i) + t) div 8 = i" "(4 * (2 * i) + t) mod 8 = t"
    using assms(3) by simp_all
  show ?thesis
    using assms(3) unfolding g blk_bit_def d nth_sbox_layer [OF assms(1) i]
    by (simp add: nibble_def bit_simps)
next
  case False
  then obtain i where g: "g = 2 * i + 1" by (elim oddE)
  with assms(2) have i: "i < 8" by simp
  note d = odd_nibble_pos [OF assms(3), of i]
  have "\<not> bit (sbox ! unat (s ! i AND 0xf)) (4 + t)"
    by (rule bit_lt16 [OF sbox_lt16 [OF low_nibble_lt16]]) simp
  then show ?thesis
    using assms(3) unfolding g blk_bit_def d nth_sbox_layer [OF assms(1) i]
    by (simp add: nibble_def bit_simps)
qed

section \<open>The scalar permutation layer, bit by bit\<close>

lemma copy_loop:
  assumes "length s = n" and "length out = n"
  shows "fold (\<lambda>i s. s[i := out ! i]) [0..<n] s = out"
proof (rule nth_equalityI)
  show "length (fold (\<lambda>i s. s[i := out ! i]) [0..<n] s) = length out"
    using assms by (simp add: length_fold_upd [where h = "\<lambda>i xs. i" and G = "\<lambda>i xs. out ! i"])
next
  fix i
  assume "i < length (fold (\<lambda>i s. s[i := out ! i]) [0..<n] s)"
  then have "i < n"
    using assms by (simp add: length_fold_upd [where h = "\<lambda>i xs. i" and G = "\<lambda>i xs. out ! i"])
  then show "fold (\<lambda>i s. s[i := out ! i]) [0..<n] s ! i = out ! i"
    using nth_fold_upd [of n s i "\<lambda>i x. out ! i"] assms by simp
qed

lemma pbox_pos_inj:
  assumes "a < 64" and "b < 64" and "pbox_pos a = pbox_pos b"
  shows "a = b"
proof -
  have "a = (pbox_pos a mod 16) * 4 + pbox_pos a div 16"
    by (rule pbox_pos_inv [OF assms(1), symmetric])
  also have "\<dots> = (pbox_pos b mod 16) * 4 + pbox_pos b div 16"
    by (simp only: assms(3))
  also have "\<dots> = b"
    by (rule pbox_pos_inv [OF assms(2)])
  finally show ?thesis .
qed

lemma bit_cpybit_getbit:
  assumes "r < 8" and "m < 8"
  shows "bit (cpybit v r (getbit w b)) m = (if m = r then bit w b else bit v m)"
  using assms
  by (auto simp: cpybit_def getbit_def Let_def bit_simps)

lemma blk_bit_update:
  assumes "c < 64" and "q < length s"
  shows "blk_bit (s[q := x]) c = (if c div 8 = q then bit x (c mod 8) else blk_bit s c)"
  using assms by (simp add: blk_bit_def nth_list_update)

lemma div_mod_8_eq: "(c div 8 = p div 8 \<and> c mod 8 = p mod 8) = (c = (p::nat))"
  by (metis div_mult_mod_eq)

lemma pbox_scratch_bits:
  fixes s :: "uint8_t list"
  defines "F \<equiv> \<lambda>b state_out.
               let val = getbit (s ! (b div 8)) (b mod 8);
                   out = pbox_pos b
               in state_out[out div 8 := cpybit (state_out ! (out div 8)) (out mod 8) val]"
  assumes "n \<le> 64" and "c < 64"
  shows "blk_bit (fold F [0..<n] (replicate 8 0)) c = (\<exists>b<n. pbox_pos b = c \<and> blk_bit s b)"
  using assms(2,3)
proof (induction n arbitrary: c)
  case 0
  then show ?case by (simp add: blk_bit_def)
next
  case (Suc n)
  let ?so = "fold F [0..<n] (replicate 8 0)"
  have len: "length ?so = 8"
    unfolding F_def Let_def
    by (simp add: length_fold_upd [where h = "\<lambda>b xs. pbox_pos b div 8"])
  from Suc.prems have n: "n < 64" by simp
  then have p: "pbox_pos n < 64" by (rule pbox_pos_lt)
  then have q: "pbox_pos n div 8 < 8" and r: "pbox_pos n mod 8 < 8" by simp_all
  have IH: "blk_bit ?so c = (\<exists>b<n. pbox_pos b = c \<and> blk_bit s b)"
    using Suc.IH [of c] Suc.prems by simp
  have m: "c mod 8 < 8" by simp
  have step: "fold F [0..<Suc n] (replicate 8 0) =
        ?so[pbox_pos n div 8 :=
              cpybit (?so ! (pbox_pos n div 8)) (pbox_pos n mod 8) (getbit (s ! (n div 8)) (n mod 8))]"
    unfolding fold_upt_Suc by (simp add: F_def Let_def)
  show ?case
  proof (cases "c = pbox_pos n")
    case True
    have "blk_bit (fold F [0..<Suc n] (replicate 8 0)) c = blk_bit s n"
      unfolding step using q r len Suc.prems(2) True
      by (simp add: blk_bit_update bit_cpybit_getbit) (simp add: blk_bit_def)
    moreover have "(\<exists>b<Suc n. pbox_pos b = c \<and> blk_bit s b) = blk_bit s n"
    proof
      assume "\<exists>b<Suc n. pbox_pos b = c \<and> blk_bit s b"
      then obtain b where b: "b < Suc n" "pbox_pos b = c" "blk_bit s b"
        by blast
      from b(1) n have "b < 64" by simp
      from pbox_pos_inj [OF this n] b(2) True have "b = n" by simp
      with b(3) show "blk_bit s n" by simp
    next
      assume "blk_bit s n"
      with True show "\<exists>b<Suc n. pbox_pos b = c \<and> blk_bit s b"
        by blast
    qed
    ultimately show ?thesis by simp
  next
    case False
    have "blk_bit (fold F [0..<Suc n] (replicate 8 0)) c = blk_bit ?so c"
    proof (cases "c div 8 = pbox_pos n div 8")
      case True
      with False have "c mod 8 \<noteq> pbox_pos n mod 8"
        using div_mod_8_eq [of c "pbox_pos n"] by simp
      then show ?thesis
        unfolding step using q r m len Suc.prems(2) True
        by (simp add: blk_bit_update bit_cpybit_getbit) (simp add: blk_bit_def)
    next
      case False
      then show ?thesis
        unfolding step using q len Suc.prems(2)
        by (simp add: blk_bit_update)
    qed
    moreover have "(\<exists>b<Suc n. pbox_pos b = c \<and> blk_bit s b) = (\<exists>b<n. pbox_pos b = c \<and> blk_bit s b)"
      using False by (auto simp: less_Suc_eq)
    ultimately show ?thesis using IH by simp
  qed
qed


lemma length_pbox_layer:
  assumes "length s = 8"
  shows "length (pbox_layer s) = 8"
  unfolding pbox_layer_def Let_def
  using assms by (simp add: length_fold_upd [where h = "\<lambda>i xs. i"])

lemma blk_bit_pbox_layer:
  assumes "length s = 8" and "b < 64"
  shows "blk_bit (pbox_layer s) (pbox_pos b) = blk_bit s b"
proof -
  let ?F = "\<lambda>b state_out.
               let val = getbit (s ! (b div 8)) (b mod 8);
                   out = pbox_pos b
               in state_out[out div 8 := cpybit (state_out ! (out div 8)) (out mod 8) val]"
  let ?so = "fold ?F [0..<64] (replicate 8 0)"
  have len: "length ?so = 8"
    unfolding Let_def
    by (simp add: length_fold_upd [where h = "\<lambda>b xs. pbox_pos b div 8"])
  have "pbox_layer s = ?so"
    unfolding pbox_layer_def Let_def
    using copy_loop [OF assms(1) len [unfolded Let_def]] by simp
  then have "blk_bit (pbox_layer s) (pbox_pos b) = (\<exists>b'<64. pbox_pos b' = pbox_pos b \<and> blk_bit s b')"
    using pbox_scratch_bits [of 64 "pbox_pos b" s] pbox_pos_lt [OF assms(2)] by simp
  also have "\<dots> = blk_bit s b"
    using assms(2) pbox_pos_inj [of _ b] by auto
  finally show ?thesis .
qed

section \<open>The bit-sliced layers, plane by plane\<close>

lemma and_1_neq_0: "(x AND 1 \<noteq> 0) = bit x 0" for x :: uint8_t
  by (cases "odd x") (simp_all add: and_one_eq bit_0 odd_iff_mod_2_eq_one)

lemma bit_all_ones: "bit (0xFFFFFFFF :: bs_reg_t) j = (j < 32)"
proof -
  have e: "(0xFFFFFFFF :: bs_reg_t) = - 1"
    by simp
  show ?thesis
    unfolding e by (simp add: bit_simps)
qed

lemma length_add_round_key_bs: "length (add_round_key_bs st rk) = length st"
  unfolding add_round_key_bs_def Let_def
  by (rule length_fold_upd [where h = "\<lambda>i xs. i"])

lemma nth_add_round_key_bs:
  assumes "length st = 64" and "p < 64"
  shows "add_round_key_bs st rk ! p = st ! p XOR (if blk_bit rk p then 0xFFFFFFFF else 0)"
proof -
  let ?g = "\<lambda>bit (x :: bs_reg_t).
      x XOR (if drop_bit (bit mod CRYPTO_IN_SIZE) (rk ! (bit div CRYPTO_IN_SIZE)) AND 1 \<noteq> 0
             then 0xFFFFFFFF else 0)"
  have "add_round_key_bs st rk ! p = ?g p (st ! p)"
    unfolding add_round_key_bs_def Let_def
    using nth_fold_upd [of 64 st p ?g] assms
    by (simp add: CRYPTO_IN_SIZE_BIT_def CRYPTO_IN_SIZE_def)
  then show ?thesis
    by (simp add: and_1_neq_0 bit_drop_bit_eq blk_bit_def CRYPTO_IN_SIZE_def)
qed

lemma bit_add_round_key_bs:
  assumes "length st = 64" and "p < 64" and "j < 32"
  shows "bit (add_round_key_bs st rk ! p) j = (bit (st ! p) j \<noteq> blk_bit rk p)"
proof (cases "blk_bit rk p")
  case True
  then have "bit (add_round_key_bs st rk ! p) j = (bit (st ! p) j \<noteq> bit (0xFFFFFFFF :: bs_reg_t) j)"
    unfolding nth_add_round_key_bs [OF assms(1,2)] by (simp only: if_True bit_xor_iff)
  then show ?thesis
    using True assms(3) by (simp only: bit_all_ones simp_thms)
next
  case False
  then show ?thesis
    unfolding nth_add_round_key_bs [OF assms(1,2)] by simp
qed

lemma length_pbox_layer_bs:
  assumes "length st = 64"
  shows "length (pbox_layer_bs st) = 64"
  unfolding pbox_layer_bs_def Let_def
  using assms by (simp add: length_fold_upd [where h = "\<lambda>i xs. i"])

lemma pbox_scratch_bs_bits:
  fixes st :: "bs_reg_t list"
  defines "F \<equiv> \<lambda>bit state_out. let out = pbox_pos bit in state_out[out := st ! bit]"
  assumes "n \<le> 64" and "c < 64"
  shows "bit (fold F [0..<n] (replicate 64 0) ! c) j = (\<exists>b<n. pbox_pos b = c \<and> bit (st ! b) j)"
  using assms(2,3)
proof (induction n arbitrary: c)
  case 0
  then show ?case by simp
next
  case (Suc n)
  let ?so = "fold F [0..<n] (replicate 64 0)"
  have len: "length ?so = 64"
    unfolding F_def Let_def
    by (simp add: length_fold_upd [where h = "\<lambda>b xs. pbox_pos b"])
  from Suc.prems have n: "n < 64" by simp
  then have p: "pbox_pos n < 64" by (rule pbox_pos_lt)
  have IH: "bit (?so ! c) j = (\<exists>b<n. pbox_pos b = c \<and> bit (st ! b) j)"
    using Suc.IH [of c] Suc.prems by simp
  have step: "fold F [0..<Suc n] (replicate 64 0) = ?so[pbox_pos n := st ! n]"
    unfolding fold_upt_Suc by (simp add: F_def Let_def)
  show ?case
  proof (cases "c = pbox_pos n")
    case True
    have "bit (fold F [0..<Suc n] (replicate 64 0) ! c) j = bit (st ! n) j"
      unfolding step using p len True by simp
    moreover have "(\<exists>b<Suc n. pbox_pos b = c \<and> bit (st ! b) j) = bit (st ! n) j"
    proof
      assume "\<exists>b<Suc n. pbox_pos b = c \<and> bit (st ! b) j"
      then obtain b where b: "b < Suc n" "pbox_pos b = c" "bit (st ! b) j"
        by blast
      from b(1) n have "b < 64" by simp
      from pbox_pos_inj [OF this n] b(2) True have "b = n" by simp
      with b(3) show "bit (st ! n) j" by simp
    next
      assume "bit (st ! n) j"
      with True show "\<exists>b<Suc n. pbox_pos b = c \<and> bit (st ! b) j"
        by blast
    qed
    ultimately show ?thesis by simp
  next
    case False
    have "bit (fold F [0..<Suc n] (replicate 64 0) ! c) j = bit (?so ! c) j"
      unfolding step using False by simp
    moreover have "(\<exists>b<Suc n. pbox_pos b = c \<and> bit (st ! b) j) =
                   (\<exists>b<n. pbox_pos b = c \<and> bit (st ! b) j)"
      using False by (auto simp: less_Suc_eq)
    ultimately show ?thesis using IH by simp
  qed
qed

lemma nth_pbox_layer_bs:
  assumes "length st = 64" and "b < 64"
  shows "pbox_layer_bs st ! pbox_pos b = st ! b"
proof -
  let ?F = "\<lambda>bit state_out. let out = pbox_pos bit in state_out[out := st ! bit]"
  let ?so = "fold ?F [0..<64] (replicate 64 0)"
  have len: "length ?so = 64"
    unfolding Let_def
    by (simp add: length_fold_upd [where h = "\<lambda>b xs. pbox_pos b"])
  have eq: "pbox_layer_bs st = ?so"
    unfolding pbox_layer_bs_def Let_def CRYPTO_IN_SIZE_BIT_def CRYPTO_IN_SIZE_def
    using copy_loop [OF assms(1) len [unfolded Let_def]] by simp
  show ?thesis
  proof (rule bit_eqI)
    fix j
    have "bit (pbox_layer_bs st ! pbox_pos b) j =
          (\<exists>b'<64. pbox_pos b' = pbox_pos b \<and> bit (st ! b') j)"
      unfolding eq
      using pbox_scratch_bs_bits [of 64 "pbox_pos b" st j] pbox_pos_lt [OF assms(2)] by simp
    also have "\<dots> = bit (st ! b) j"
      using assms(2) pbox_pos_inj [of _ b] by auto
    finally show "bit (pbox_layer_bs st ! pbox_pos b) j = bit (st ! b) j" .
  qed
qed

lemma length_fold_preserve:
  assumes "\<And>i xs. length (f i xs) = length xs"
  shows "length (fold f js xs) = length xs"
  by (induction js arbitrary: xs) (simp_all add: assms)

lemma length_sbox_layer_bs:
  assumes "length st = 64"
  shows "length (sbox_layer_bs st) = 64"
  unfolding sbox_layer_bs_def Let_def
  using assms by (simp add: length_fold_upd [where h = "\<lambda>i xs. i"])

lemma nat_lt_4_cases: "(k::nat) < 4 \<Longrightarrow> k = 0 \<or> k = 1 \<or> k = 2 \<or> k = 3"
  by linarith

lemma sbox_scratch_bs:
  fixes st :: "bs_reg_t list"
  defines "F \<equiv> \<lambda>i state_out.
               let in0 = st ! (i * 4 + 0);
                   in1 = st ! (i * 4 + 1);
                   in2 = st ! (i * 4 + 2);
                   in3 = st ! (i * 4 + 3);
                   state_out = state_out[i * 4 + 0 := sbox0 in0 in1 in2 in3];
                   state_out = state_out[i * 4 + 1 := sbox1 in0 in1 in2 in3];
                   state_out = state_out[i * 4 + 2 := sbox2 in0 in1 in2 in3];
                   state_out = state_out[i * 4 + 3 := sbox3 in0 in1 in2 in3]
               in state_out"
  assumes "n \<le> 16" and "g < 16" and "k < 4"
  shows "fold F [0..<n] (replicate 64 0) ! (g * 4 + k) =
         (if g < n
          then ([sbox0, sbox1, sbox2, sbox3] ! k)
                 (st ! (g * 4 + 0)) (st ! (g * 4 + 1)) (st ! (g * 4 + 2)) (st ! (g * 4 + 3))
          else 0)"
  using assms(2)
proof (induction n)
  case 0
  from assms(3,4) have "g * 4 + k < 64" by linarith
  then show ?case by simp
next
  case (Suc n)
  let ?so = "fold F [0..<n] (replicate 64 0)"
  have "length ?so = length (replicate 64 (0 :: bs_reg_t))"
    by (rule length_fold_preserve) (simp add: F_def Let_def)
  then have len: "length ?so = 64"
    by simp
  from Suc.prems have n: "n < 16" by simp
  have IH: "?so ! (g * 4 + k) =
         (if g < n
          then ([sbox0, sbox1, sbox2, sbox3] ! k)
                 (st ! (g * 4 + 0)) (st ! (g * 4 + 1)) (st ! (g * 4 + 2)) (st ! (g * 4 + 3))
          else 0)"
    using Suc.IH Suc.prems by simp
  have step: "fold F [0..<Suc n] (replicate 64 0) =
     ?so[n * 4 + 0 := sbox0 (st ! (n * 4 + 0)) (st ! (n * 4 + 1)) (st ! (n * 4 + 2)) (st ! (n * 4 + 3)),
         n * 4 + 1 := sbox1 (st ! (n * 4 + 0)) (st ! (n * 4 + 1)) (st ! (n * 4 + 2)) (st ! (n * 4 + 3)),
         n * 4 + 2 := sbox2 (st ! (n * 4 + 0)) (st ! (n * 4 + 1)) (st ! (n * 4 + 2)) (st ! (n * 4 + 3)),
         n * 4 + 3 := sbox3 (st ! (n * 4 + 0)) (st ! (n * 4 + 1)) (st ! (n * 4 + 2)) (st ! (n * 4 + 3))]"
    unfolding fold_upt_Suc by (simp add: F_def Let_def)
  show ?case
  proof (cases "g = n")
    case True
    from n have b: "n * 4 + 3 < 64" by linarith
    show ?thesis
      using nat_lt_4_cases [OF assms(4)] b len
      unfolding step True
      by (elim disjE) (simp_all add: nth_list_update)
  next
    case False
    with assms(4) have ne: "n * 4 + 0 \<noteq> g * 4 + k" "n * 4 + 1 \<noteq> g * 4 + k"
      "n * 4 + 2 \<noteq> g * 4 + k" "n * 4 + 3 \<noteq> g * 4 + k"
      by linarith+
    have "fold F [0..<Suc n] (replicate 64 0) ! (g * 4 + k) = ?so ! (g * 4 + k)"
      unfolding step by (simp only: nth_list_update_neq [OF ne(1)] nth_list_update_neq [OF ne(2)]
          nth_list_update_neq [OF ne(3)] nth_list_update_neq [OF ne(4)])
    moreover from False have "(g < Suc n) = (g < n)"
      by linarith
    ultimately show ?thesis
      using IH by (simp only:)
  qed
qed

lemma nth_sbox_layer_bs:
  assumes "length st = 64" and "g < 16" and "k < 4"
  shows "sbox_layer_bs st ! (g * 4 + k) =
           ([sbox0, sbox1, sbox2, sbox3] ! k)
             (st ! (g * 4 + 0)) (st ! (g * 4 + 1)) (st ! (g * 4 + 2)) (st ! (g * 4 + 3))"
proof -
  let ?F = "\<lambda>i state_out.
               let in0 = st ! (i * 4 + 0);
                   in1 = st ! (i * 4 + 1);
                   in2 = st ! (i * 4 + 2);
                   in3 = st ! (i * 4 + 3);
                   state_out = state_out[i * 4 + 0 := sbox0 in0 in1 in2 in3];
                   state_out = state_out[i * 4 + 1 := sbox1 in0 in1 in2 in3];
                   state_out = state_out[i * 4 + 2 := sbox2 in0 in1 in2 in3];
                   state_out = state_out[i * 4 + 3 := sbox3 in0 in1 in2 in3]
               in state_out"
  let ?so = "fold ?F [0..<16] (replicate 64 0)"
  have "length ?so = length (replicate 64 (0 :: bs_reg_t))"
    by (rule length_fold_preserve) (simp add: Let_def)
  then have len: "length ?so = 64"
    by simp
  have "fold (\<lambda>i state_bs. state_bs[i := ?so ! i]) [0..<64] st = ?so"
    by (rule copy_loop [OF assms(1) len])
  then have eq: "sbox_layer_bs st = ?so"
    unfolding sbox_layer_bs_def CRYPTO_IN_SIZE_BIT_def CRYPTO_IN_SIZE_def
    by (simp only: Let_def mult.commute [of 8 8] numeral_times_numeral semiring_norm num.simps)
  have "?so ! (g * 4 + k) =
         (if g < 16
          then ([sbox0, sbox1, sbox2, sbox3] ! k)
                 (st ! (g * 4 + 0)) (st ! (g * 4 + 1)) (st ! (g * 4 + 2)) (st ! (g * 4 + 3))
          else 0)"
    by (rule sbox_scratch_bs [OF le_refl assms(2,3)])
  with assms(2) show ?thesis
    unfolding eq by (simp only: if_True)
qed

section \<open>The bit-sliced cipher computes the scalar cipher in every lane\<close>

lemma sbox_lanes_nth:
  fixes x :: nat
  assumes "x < 16" and "j < 32" and "k < 4"
    and "bit x0 j = bit x 0" and "bit x1 j = bit x 1"
    and "bit x2 j = bit x 2" and "bit x3 j = bit x 3"
  shows "bit (([sbox0, sbox1, sbox2, sbox3] ! k) x0 x1 x2 x3) j = bit (sbox ! x) k"
  using sbox_lanes [OF assms(1,2,4-)] nat_lt_4_cases [OF assms(3)]
  by (elim disjE) simp_all

lemma blk_bit_add_round_key:
  assumes "length pt = 8" and "p < 64"
  shows "blk_bit (add_round_key pt rk) p = (blk_bit pt p \<noteq> blk_bit rk p)"
proof -
  from assms(2) have "p div 8 < 8" by simp
  from nth_add_round_key [OF assms(1) this] show ?thesis
    by (simp add: blk_bit_def bit_xor_iff)
qed

lemma sliced_add_round_key:
  assumes "sliced st blocks"
  shows "sliced (add_round_key_bs st rk) (map (\<lambda>b. add_round_key b rk) blocks)"
  using assms unfolding sliced_def
  by (auto simp: length_add_round_key_bs length_add_round_key bit_add_round_key_bs
      blk_bit_add_round_key)

lemma sliced_sbox_layer:
  assumes "sliced st blocks"
  shows "sliced (sbox_layer_bs st) (map sbox_layer blocks)"
proof -
  from assms have st: "length st = 64" and n: "length blocks = 32"
    and len: "\<And>j. j < 32 \<Longrightarrow> length (blocks ! j) = 8"
    and rel: "\<And>p j. p < 64 \<Longrightarrow> j < 32 \<Longrightarrow> bit (st ! p) j = blk_bit (blocks ! j) p"
    unfolding sliced_def by simp_all
  have "bit (sbox_layer_bs st ! p) j = blk_bit (sbox_layer (blocks ! j)) p"
    if p: "p < 64" and j: "j < 32" for p j
  proof -
    define g k where "g = p div 4" and "k = p mod 4"
    from p have g: "g < 16" and k: "k < 4" and e: "p = g * 4 + k" and e': "p = 4 * g + k"
      by (simp_all add: g_def k_def)
    from g have b: "g * 4 + 0 < 64" "g * 4 + 1 < 64" "g * 4 + 2 < 64" "g * 4 + 3 < 64"
      by linarith+
    have x: "bit (st ! (g * 4 + u)) j = bit (nibble (blocks ! j) g) u" if "u < 4" for u
    proof -
      from g that have "g * 4 + u < 64" by linarith
      from rel [OF this j] show ?thesis
        using bit_nibble [OF g that, of "blocks ! j"] by (simp add: mult.commute)
    qed
    have "bit (sbox_layer_bs st ! (g * 4 + k)) j = bit (sbox ! nibble (blocks ! j) g) k"
      unfolding nth_sbox_layer_bs [OF st g k]
      by (rule sbox_lanes_nth [OF nibble_lt16 j k]) (rule x, simp)+
    also have "\<dots> = blk_bit (sbox_layer (blocks ! j)) (4 * g + k)"
      by (rule blk_bit_sbox_layer [OF len [OF j] g k, symmetric])
    finally show ?thesis
      unfolding e [symmetric] e' [symmetric] .
  qed
  then show ?thesis
    unfolding sliced_def using st n len
    by (auto simp: length_sbox_layer_bs length_sbox_layer in_set_conv_nth)
qed

lemma sliced_pbox_layer:
  assumes "sliced st blocks"
  shows "sliced (pbox_layer_bs st) (map pbox_layer blocks)"
proof -
  from assms have st: "length st = 64" and n: "length blocks = 32"
    and len: "\<And>j. j < 32 \<Longrightarrow> length (blocks ! j) = 8"
    and rel: "\<And>p j. p < 64 \<Longrightarrow> j < 32 \<Longrightarrow> bit (st ! p) j = blk_bit (blocks ! j) p"
    unfolding sliced_def by simp_all
  have "bit (pbox_layer_bs st ! c) j = blk_bit (pbox_layer (blocks ! j)) c"
    if c: "c < 64" and j: "j < 32" for c j
  proof -
    define b where "b = (c mod 16) * 4 + c div 16"
    from c have b: "b < 64" and e: "pbox_pos b = c"
      unfolding b_def by (rule pbox_pos_inv_lt, rule pbox_pos_inv')
    have "bit (pbox_layer_bs st ! pbox_pos b) j = bit (st ! b) j"
      by (simp only: nth_pbox_layer_bs [OF st b])
    also have "\<dots> = blk_bit (blocks ! j) b"
      by (rule rel [OF b j])
    also have "\<dots> = blk_bit (pbox_layer (blocks ! j)) (pbox_pos b)"
      by (rule blk_bit_pbox_layer [OF len [OF j] b, symmetric])
    finally show ?thesis
      unfolding e .
  qed
  then show ?thesis
    unfolding sliced_def using st n len
    by (auto simp: length_pbox_layer_bs length_pbox_layer in_set_conv_nth)
qed

lemma nth_concat_blocks:
  assumes "\<forall>b\<in>set blocks. length b = 8" and "j < length blocks" and "q < 8"
  shows "concat blocks ! (j * 8 + q) = blocks ! j ! q"
  using assms
proof (induction blocks arbitrary: j)
  case Nil
  then show ?case by simp
next
  case (Cons b blocks)
  show ?case
  proof (cases j)
    case 0
    with Cons.prems show ?thesis by (simp add: nth_append)
  next
    case (Suc j')
    with Cons.prems have "concat blocks ! (j' * 8 + q) = blocks ! j' ! q"
      by (intro Cons.IH) simp_all
    with Cons.prems Suc show ?thesis by (simp add: nth_append)
  qed
qed

lemma length_concat_blocks:
  assumes "\<forall>b\<in>set blocks. length b = 8"
  shows "length (concat blocks) = 8 * length blocks"
  using assms by (induction blocks) simp_all

lemma sliced_enslice:
  assumes "length blocks = 32" and "\<forall>b\<in>set blocks. length b = 8" and "length s = 64"
  shows "sliced (enslice (concat blocks) s) blocks"
proof -
  have "bit (enslice (concat blocks) s ! p) j = blk_bit (blocks ! j) p"
    if p: "p < 64" and j: "j < 32" for p j
  proof -
    from p have q: "p div 8 < 8" by simp
    have "concat blocks ! (j * 8 + p div 8) = blocks ! j ! (p div 8)"
      using assms(1) j by (intro nth_concat_blocks [OF assms(2) _ q]) simp
    then show ?thesis
      unfolding bit_enslice [OF assms(3) p j] blk_bit_def by (simp add: add.commute)
  qed
  then show ?thesis
    unfolding sliced_def using assms by (simp add: length_enslice)
qed

lemma unslice_sliced:
  assumes "sliced st blocks" and "length p = 256"
  shows "unslice st p = concat blocks"
proof -
  from assms(1) have st: "length st = 64" and n: "length blocks = 32"
    and len: "\<forall>b\<in>set blocks. length b = 8"
    and rel: "\<And>p j. p < 64 \<Longrightarrow> j < 32 \<Longrightarrow> bit (st ! p) j = blk_bit (blocks ! j) p"
    unfolding sliced_def by simp_all
  show ?thesis
  proof (rule nth_equalityI)
    show "length (unslice st p) = length (concat blocks)"
      using assms(2) n by (simp add: length_unslice length_concat_blocks [OF len])
  next
    fix k
    assume "k < length (unslice st p)"
    then have k: "k < 256" using assms(2) by (simp add: length_unslice)
    then have l: "k div 8 < 32" by simp
    have m: "k mod 8 < 8" by simp
    have "concat blocks ! (k div 8 * 8 + k mod 8) = blocks ! (k div 8) ! (k mod 8)"
      using l n by (intro nth_concat_blocks [OF len _ m]) simp
    then have c: "concat blocks ! k = blocks ! (k div 8) ! (k mod 8)"
      by simp
    show "unslice st p ! k = concat blocks ! k"
    proof (rule bit_word_eqI)
      fix b
      assume "b < LENGTH(8)"
      then have b: "b < 8" by simp
      have "bit (unslice st p ! k) b = bit (st ! ((k * 8) mod 64 + b)) (k div 8)"
        by (rule bit_unslice [OF assms(2) k b])
      also have "\<dots> = blk_bit (blocks ! (k div 8)) ((k * 8) mod 64 + b)"
        by (rule rel [OF plane_index(1) [OF b] l])
      also have "\<dots> = bit (blocks ! (k div 8) ! (k mod 8)) b"
        unfolding blk_bit_def by (simp only: plane_index(2,3) [OF b])
      finally show "bit (unslice st p ! k) b = bit (concat blocks ! k) b"
        unfolding c .
    qed
  qed
qed

lemma sliced_rounds:
  assumes "sliced st blocks"
  shows "sliced (fst (fold round_step_bs js (st, key)))
           (map (\<lambda>b. fst (fold round_step js (b, key))) blocks)"
  using assms
proof (induction js arbitrary: st blocks key)
  case Nil
  then show ?case by simp
next
  case (Cons i js)
  let ?st = "pbox_layer_bs (sbox_layer_bs (add_round_key_bs st (drop 2 key)))"
  let ?layers = "\<lambda>b. pbox_layer (sbox_layer (add_round_key b (drop 2 key)))"
  let ?key = "update_round_key key (of_nat i)"
  have "sliced ?st (map pbox_layer (map sbox_layer (map (\<lambda>b. add_round_key b (drop 2 key)) blocks)))"
    by (intro sliced_pbox_layer sliced_sbox_layer sliced_add_round_key Cons.prems)
  then have "sliced ?st (map ?layers blocks)"
    by (simp add: comp_def)
  then have "sliced (fst (fold round_step_bs js (?st, ?key)))
               (map (\<lambda>b. fst (fold round_step js (b, ?key))) (map ?layers blocks))"
    by (rule Cons.IH)
  moreover have "round_step_bs i (st, key) = (?st, ?key)"
    by (simp add: round_step_bs_def)
  moreover have "round_step i (b, key) = (?layers b, ?key)" for b
    by (simp add: round_step_def)
  ultimately show ?case
    by (simp add: comp_def)
qed

text \<open>
  Claim C1. For every key buffer and every choice of \<open>BITSLICE_WIDTH\<close> plaintext blocks
  of 8 bytes each, the bit-sliced \<^verbatim>\<open>crypto_func\<close>, run on the concatenation of the blocks
  (a buffer of \<open>8 * BITSLICE_WIDTH\<close> bytes), leaves in that buffer the concatenation of the
  ciphertext blocks that the scalar \<^verbatim>\<open>crypto_func\<close> leaves when it is run on each block
  alone, every run starting from the same initial key.
\<close>

theorem bitsliced_equals_scalar:
  assumes "length blocks = BITSLICE_WIDTH" and "\<forall>b\<in>set blocks. length b = CRYPTO_IN_SIZE"
  shows "fst (crypto_func_bs (concat blocks) key) =
         concat (map (\<lambda>b. fst (crypto_func b key)) blocks)"
proof -
  from assms have n: "length blocks = 32" and len: "\<forall>b\<in>set blocks. length b = 8"
    by (simp_all add: BITSLICE_WIDTH_def CRYPTO_IN_SIZE_def)
  let ?R = "[1..<32]"
  let ?pt = "concat blocks"
  let ?s = "enslice ?pt (replicate CRYPTO_IN_SIZE_BIT 0)"
  let ?K = "key_schedule_31 key"
  have K: "snd (fold round_step ?R (b, key)) = ?K" for b
    unfolding key_schedule_31_def by (rule snd_fold_round_step)
  have K_bs: "snd (fold round_step_bs ?R (?s, key)) = ?K"
    unfolding key_schedule_31_def by (rule snd_fold_round_step_bs)
  have scalar: "fst (crypto_func b key) =
      add_round_key (fst (fold round_step ?R (b, key))) (drop 2 ?K)" for b
    unfolding crypto_func_rounds rounds_spec_def
    using K [of b] by (cases "fold round_step ?R (b, key)") (simp only: prod.case fst_conv snd_conv)
  have bs: "fst (crypto_func_bs ?pt key) =
      unslice (add_round_key_bs (fst (fold round_step_bs ?R (?s, key))) (drop 2 ?K)) ?pt"
    unfolding crypto_func_bs_rounds rounds_spec_bs_def
    using K_bs by (cases "fold round_step_bs ?R (?s, key)") (simp only: prod.case fst_conv snd_conv)
  have "sliced ?s blocks"
    by (rule sliced_enslice [OF n len]) (simp add: CRYPTO_IN_SIZE_BIT_def CRYPTO_IN_SIZE_def)
  then have "sliced (fst (fold round_step_bs ?R (?s, key)))
               (map (\<lambda>b. fst (fold round_step ?R (b, key))) blocks)"
    by (rule sliced_rounds)
  then have "sliced (add_round_key_bs (fst (fold round_step_bs ?R (?s, key))) (drop 2 ?K))
               (map (\<lambda>b. add_round_key b (drop 2 ?K))
                  (map (\<lambda>b. fst (fold round_step ?R (b, key))) blocks))"
    by (rule sliced_add_round_key)
  moreover have "length ?pt = 256"
    using n by (simp add: length_concat_blocks [OF len])
  ultimately have "unslice (add_round_key_bs (fst (fold round_step_bs ?R (?s, key))) (drop 2 ?K)) ?pt =
      concat (map (\<lambda>b. add_round_key b (drop 2 ?K))
                  (map (\<lambda>b. fst (fold round_step ?R (b, key))) blocks))"
    by (rule unslice_sliced)
  also have "\<dots> = concat (map (\<lambda>b. fst (crypto_func b key)) blocks)"
    by (simp only: map_map comp_def scalar)
  finally show ?thesis
    unfolding bs .
qed


theorem bitsliced_equals_scalar_witness:
  "fst (crypto_func_bs (concat (map (\<lambda>j. map (\<lambda>i. of_nat (8 * j + i)) [0..<8]) [0..<32]))
          [1, 2, 3, 4, 5, 6, 7, 8, 9, 10]) =
   concat (map (\<lambda>b. fst (crypto_func b [1, 2, 3, 4, 5, 6, 7, 8, 9, 10]))
     (map (\<lambda>j. map (\<lambda>i. of_nat (8 * j + i)) [0..<8]) [0..<32]))"
proof -
  let ?blocks = "map (\<lambda>j. map (\<lambda>i. of_nat (8 * j + i)) [0..<8]) [0..<32] :: uint8_t list list"
  have h1: "length ?blocks = BITSLICE_WIDTH"
    by (simp add: BITSLICE_WIDTH_def)
  have h2: "\<forall>b\<in>set ?blocks. length b = CRYPTO_IN_SIZE"
    by (simp add: CRYPTO_IN_SIZE_def)
  show ?thesis
    by (rule bitsliced_equals_scalar [OF h1 h2])
qed

section \<open>The round key that each round of the cipher mixes in\<close>

text \<open>
  Each layer of a round is injective on 8-byte blocks, so the block that the remaining
  rounds start from determines the result of the round loop.
\<close>

lemma blk_ext:
  assumes "length s = 8" and "length t = 8" and "\<And>p. p < 64 \<Longrightarrow> blk_bit s p = blk_bit t p"
  shows "s = t"
proof (rule nth_equalityI)
  show "length s = length t"
    using assms(1,2) by simp
next
  fix i
  assume "i < length s"
  then have i: "i < 8" using assms(1) by simp
  show "s ! i = t ! i"
  proof (rule bit_word_eqI)
    fix n
    assume "n < LENGTH(8)"
    then have n: "n < 8" by simp
    with i have "8 * i + n < 64" by linarith
    from assms(3) [OF this] n show "bit (s ! i) n = bit (t ! i) n"
      by (simp add: blk_bit_def)
  qed
qed

lemma add_round_key_inj:
  assumes "length a = 8" and "length b = 8" and "add_round_key a rk = add_round_key b rk"
  shows "a = b"
proof (rule blk_ext [OF assms(1,2)])
  fix p :: nat
  assume p: "p < 64"
  have "(blk_bit a p \<noteq> blk_bit rk p) = (blk_bit b p \<noteq> blk_bit rk p)"
    using blk_bit_add_round_key [OF assms(1) p, of rk] blk_bit_add_round_key [OF assms(2) p, of rk]
    by (simp only: assms(3))
  then show "blk_bit a p = blk_bit b p"
    by blast
qed

lemma pbox_layer_inj:
  assumes "length a = 8" and "length b = 8" and "pbox_layer a = pbox_layer b"
  shows "a = b"
proof (rule blk_ext [OF assms(1,2)])
  fix p :: nat
  assume p: "p < 64"
  have "blk_bit a p = blk_bit (pbox_layer a) (pbox_pos p)"
    by (rule blk_bit_pbox_layer [OF assms(1) p, symmetric])
  also have "\<dots> = blk_bit (pbox_layer b) (pbox_pos p)"
    by (simp only: assms(3))
  also have "\<dots> = blk_bit b p"
    by (rule blk_bit_pbox_layer [OF assms(2) p])
  finally show "blk_bit a p = blk_bit b p" .
qed

lemma sbox_nth_inj:
  assumes "x < 16" and "y < 16" and "sbox ! x = sbox ! y"
  shows "x = y"
proof -
  have "distinct sbox" and "length sbox = 16"
    by (simp_all add: sbox_def)
  with assms show ?thesis
    by (simp add: nth_eq_iff_index_eq)
qed

lemma sbox_layer_inj:
  assumes "length a = 8" and "length b = 8" and "sbox_layer a = sbox_layer b"
  shows "a = b"
proof (rule blk_ext [OF assms(1,2)])
  fix p :: nat
  assume p: "p < 64"
  define g u where "g = p div 4" and "u = p mod 4"
  from p have g: "g < 16" and u: "u < 4" and e: "p = 4 * g + u"
    by (simp_all add: g_def u_def)
  have "sbox ! nibble a g = sbox ! nibble b g"
  proof (rule bit_word_eqI)
    fix n
    assume "n < LENGTH(8)"
    show "bit (sbox ! nibble a g) n = bit (sbox ! nibble b g) n"
    proof (cases "n < 4")
      case True
      have "bit (sbox ! nibble a g) n = blk_bit (sbox_layer a) (4 * g + n)"
        by (rule blk_bit_sbox_layer [OF assms(1) g True, symmetric])
      also have "\<dots> = blk_bit (sbox_layer b) (4 * g + n)"
        by (simp only: assms(3))
      also have "\<dots> = bit (sbox ! nibble b g) n"
        by (rule blk_bit_sbox_layer [OF assms(2) g True])
      finally show ?thesis .
    next
      case False
      then have n: "4 \<le> n" by simp
      from bit_lt16 [OF sbox_lt16 [OF nibble_lt16] n, of a g]
        bit_lt16 [OF sbox_lt16 [OF nibble_lt16] n, of b g]
      show ?thesis by simp
    qed
  qed
  then have "nibble a g = nibble b g"
    by (rule sbox_nth_inj [OF nibble_lt16 nibble_lt16])
  then have "bit (nibble a g) u = bit (nibble b g) u"
    by simp
  then show "blk_bit a p = blk_bit b p"
    unfolding e by (simp only: bit_nibble [OF g u])
qed

lemma length_update_round_key: "length (update_round_key key r) = length key"
  by (simp add: update_round_key_def key_counter_def key_sbox_def key_rotate_def Let_def)

lemma round_layers_inj:
  assumes "length a = 8" and "length b = 8"
    and "pbox_layer (sbox_layer (add_round_key a rk)) = pbox_layer (sbox_layer (add_round_key b rk))"
  shows "a = b"
proof -
  have la: "length (add_round_key a rk) = 8" and lb: "length (add_round_key b rk) = 8"
    using assms(1,2) by (simp_all add: length_add_round_key)
  then have "length (sbox_layer (add_round_key a rk)) = 8"
    and "length (sbox_layer (add_round_key b rk)) = 8"
    by (simp_all add: length_sbox_layer)
  from pbox_layer_inj [OF this assms(3)]
  have "sbox_layer (add_round_key a rk) = sbox_layer (add_round_key b rk)" .
  from sbox_layer_inj [OF la lb this]
  have "add_round_key a rk = add_round_key b rk" .
  from add_round_key_inj [OF assms(1,2) this] show ?thesis .
qed

lemma length_round_layers:
  assumes "length a = 8"
  shows "length (pbox_layer (sbox_layer (add_round_key a rk))) = 8"
  using assms by (simp add: length_pbox_layer length_sbox_layer length_add_round_key)

lemma fold_round_step_inj:
  assumes "length a = 8" and "length b = 8"
    and "fold round_step js (a, k) = fold round_step js (b, k)"
  shows "a = b"
  using assms
proof (induction js arbitrary: a b k)
  case Nil
  then show ?case by simp
next
  case (Cons i js)
  let ?L = "\<lambda>x. pbox_layer (sbox_layer (add_round_key x (drop 2 k)))"
  have rs: "round_step i (x, k) = (?L x, update_round_key k (of_nat i))" for x
    by (simp add: round_step_def)
  from Cons.prems(3) have "fold round_step js (?L a, update_round_key k (of_nat i)) =
      fold round_step js (?L b, update_round_key k (of_nat i))"
    by (simp add: rs)
  then have "?L a = ?L b"
    by (rule Cons.IH [OF length_round_layers [OF Cons.prems(1)] length_round_layers [OF Cons.prems(2)]])
  then show ?case
    by (rule round_layers_inj [OF Cons.prems(1,2)])
qed

lemma length_fold_round_step:
  assumes "length a = 8" and "length k = 10"
  shows "length (fst (fold round_step js (a, k))) = 8 \<and> length (snd (fold round_step js (a, k))) = 10"
  using assms
proof (induction js arbitrary: a k)
  case Nil
  then show ?case by simp
next
  case (Cons i js)
  have rs: "round_step i (a, k) =
      (pbox_layer (sbox_layer (add_round_key a (drop 2 k))), update_round_key k (of_nat i))"
    by (simp add: round_step_def)
  have "length (update_round_key k (of_nat i)) = 10"
    using Cons.prems(2) by (simp add: length_update_round_key)
  from Cons.IH [OF length_round_layers [OF Cons.prems(1)] this]
  show ?case
    by (simp add: rs)
qed

lemma crypto_loop_step:
  assumes "i \<le> 31"
  shows "crypto_loop i pt key =
         crypto_loop (i + 1) (pbox_layer (sbox_layer (add_round_key pt (drop 2 key))))
           (update_round_key key i)"
  using assms by (subst crypto_loop.simps) (simp only: if_True)

lemma length_crypto_loop_1:
  assumes "length pt = 8" and "length key = 10"
  shows "length (fst (crypto_loop 1 pt key)) = 8" and "length (snd (crypto_loop 1 pt key)) = 10"
  using length_fold_round_step [OF assms, of "[1..<32]"]
  by (simp_all only: crypto_loop_1)

lemma crypto_func_final:
  "crypto_func pt key =
     (add_round_key (fst (crypto_loop 1 pt key)) (drop 2 (snd (crypto_loop 1 pt key))),
      snd (crypto_loop 1 pt key))"
  by (simp add: crypto_func_def split_beta)

text \<open>
  Claim C4, as stated: in every round of \<^verbatim>\<open>crypto_func\<close> the low 64 bits of the key
  register are XORed into the block. It fails in round 1 for the all-zero block and the
  key whose bytes 0 and 1 are \<open>0xFF\<close> and whose other bytes are zero. The low 64 bits of
  that register are \<open>0xFFFF\<close>, so the mixed block would be \<open>ff ff 00 00 00 00 00 00\<close>, the
  one 8-byte block of that value; but the loop started at round 1 does not return what it
  returns when rounds 2 to 31 start from the substituted and permuted image of that
  block. (The code mixes in bytes 2 to 9, which are zero, and leaves the block zero.)
\<close>

theorem crypto_loop_round_key_low_bits_counterexample:
  "length [0xFF, 0xFF, 0, 0, 0, 0, 0, 0 :: uint8_t] = 8 \<and>
   state_reg [0xFF, 0xFF, 0, 0, 0, 0, 0, 0] =
     state_reg [0, 0, 0, 0, 0, 0, 0, 0] XOR ucast (key_reg [0xFF, 0xFF, 0, 0, 0, 0, 0, 0, 0, 0]) \<and>
   crypto_loop 1 [0, 0, 0, 0, 0, 0, 0, 0] [0xFF, 0xFF, 0, 0, 0, 0, 0, 0, 0, 0] \<noteq>
     crypto_loop 2 (pbox_layer (sbox_layer [0xFF, 0xFF, 0, 0, 0, 0, 0, 0]))
       (update_round_key [0xFF, 0xFF, 0, 0, 0, 0, 0, 0, 0, 0] 1)"
proof (intro conjI)
  let ?pt = "[0, 0, 0, 0, 0, 0, 0, 0] :: uint8_t list"
  let ?key = "[0xFF, 0xFF, 0, 0, 0, 0, 0, 0, 0, 0] :: uint8_t list"
  let ?low = "[0xFF, 0xFF, 0, 0, 0, 0, 0, 0] :: uint8_t list"
  let ?m = "add_round_key ?pt (drop 2 ?key)"
  let ?K = "update_round_key ?key 1"
  show "length ?low = 8"
    by simp
  show "state_reg ?low = state_reg ?pt XOR ucast (key_reg ?key)"
    by (simp add: state_reg_def key_reg_def)
  show "crypto_loop 1 ?pt ?key \<noteq> crypto_loop 2 (pbox_layer (sbox_layer ?low)) ?K"
  proof
    assume eq: "crypto_loop 1 ?pt ?key = crypto_loop 2 (pbox_layer (sbox_layer ?low)) ?K"
    have m: "?m = ?pt"
      by (simp add: add_round_key_def upt8)
    have lm: "length ?m = 8" and ll: "length ?low = 8"
      by (simp_all add: length_add_round_key)
    have cf: "crypto_loop 2 x k = fold round_step [2..<32] (x, k)" for x k
    proof -
      have "crypto_loop (of_nat 2) x k = fold round_step [2..<32] (x, k)"
        by (rule crypto_loop_fold) simp
      then show ?thesis
        by (simp only: of_nat_numeral)
    qed
    have "crypto_loop 1 ?pt ?key = crypto_loop (1 + 1) (pbox_layer (sbox_layer ?m)) ?K"
      by (rule crypto_loop_step) simp
    moreover have "(1 :: uint8_t) + 1 = 2"
      by simp
    ultimately have "crypto_loop 1 ?pt ?key = crypto_loop 2 (pbox_layer (sbox_layer ?m)) ?K"
      by (simp only:)
    with eq have "crypto_loop 2 (pbox_layer (sbox_layer ?m)) ?K =
                  crypto_loop 2 (pbox_layer (sbox_layer ?low)) ?K"
      by (simp only:)
    then have folds: "fold round_step [2..<32] (pbox_layer (sbox_layer ?m), ?K) =
               fold round_step [2..<32] (pbox_layer (sbox_layer ?low), ?K)"
      unfolding cf .
    have lsm: "length (sbox_layer ?m) = 8" and lsl: "length (sbox_layer ?low) = 8"
      using lm ll by (simp_all only: length_sbox_layer)
    have lpm: "length (pbox_layer (sbox_layer ?m)) = 8"
      and lpl: "length (pbox_layer (sbox_layer ?low)) = 8"
      using lsm lsl by (simp_all only: length_pbox_layer)
    have "pbox_layer (sbox_layer ?m) = pbox_layer (sbox_layer ?low)"
      by (rule fold_round_step_inj [OF lpm lpl folds])
    from pbox_layer_inj [OF lsm lsl this] have "sbox_layer ?m = sbox_layer ?low" .
    from sbox_layer_inj [OF lm ll this] have "?m = ?low" .
    with m show False
      by simp
  qed
qed


text \<open>
  Claim C4, amended. In every round of \<^verbatim>\<open>crypto_func\<close>, the 64 bits XORed into the block
  are the high 64 bits of the 80-bit key register, its bits 16 to 79 (bytes 2 to 9 of the
  key buffer), at the time of mixing. For an 8-byte block, a 10-byte key and a round
  number \<open>i\<close> in \<open>[1,31]\<close>, the loop at round \<open>i\<close> continues at round \<open>i + 1\<close> from the
  substituted and permuted image of a block \<open>m\<close> whose 64-bit value is the block's value
  XOR bits 16 to 79 of the key register, with the key advanced by one schedule step with
  counter \<open>i\<close>; the new block has 8 bytes and the new key 10, so the same holds of the
  next round. After round 31 the loop returns an 8-byte block and a 10-byte key, and the
  block that \<^verbatim>\<open>crypto_func\<close> returns is that block XOR bits 16 to 79 of that key's register.
\<close>

theorem crypto_loop_round_key_high_bits:
  assumes "length pt = 8" and "length key = 10" and "1 \<le> i" and "i \<le> 31"
  shows "(\<exists>m. length m = 8 \<and>
            state_reg m = state_reg pt XOR ucast (drop_bit 16 (key_reg key)) \<and>
            crypto_loop i pt key =
              crypto_loop (i + 1) (pbox_layer (sbox_layer m)) (update_round_key key i) \<and>
            length (pbox_layer (sbox_layer m)) = 8) \<and>
         length (update_round_key key i) = 10 \<and>
         length (fst (crypto_loop 1 pt key)) = 8 \<and>
         length (snd (crypto_loop 1 pt key)) = 10 \<and>
         state_reg (fst (crypto_func pt key)) =
           state_reg (fst (crypto_loop 1 pt key)) XOR
             ucast (drop_bit 16 (key_reg (snd (crypto_loop 1 pt key)))) \<and>
         snd (crypto_func pt key) = snd (crypto_loop 1 pt key)"
proof (intro conjI)
  let ?m = "add_round_key pt (drop 2 key)"
  have "length ?m = 8"
    using assms(1) by (simp add: length_add_round_key)
  moreover have "state_reg ?m = state_reg pt XOR ucast (drop_bit 16 (key_reg key))"
    by (rule state_reg_add_round_key [OF assms(1,2)])
  moreover have "crypto_loop i pt key =
      crypto_loop (i + 1) (pbox_layer (sbox_layer ?m)) (update_round_key key i)"
    by (rule crypto_loop_step [OF assms(4)])
  moreover have "length (pbox_layer (sbox_layer ?m)) = 8"
    by (rule length_round_layers [OF assms(1)])
  ultimately show "\<exists>m. length m = 8 \<and>
            state_reg m = state_reg pt XOR ucast (drop_bit 16 (key_reg key)) \<and>
            crypto_loop i pt key =
              crypto_loop (i + 1) (pbox_layer (sbox_layer m)) (update_round_key key i) \<and>
            length (pbox_layer (sbox_layer m)) = 8"
    by blast
  show "length (update_round_key key i) = 10"
    using assms(2) by (simp add: length_update_round_key)
  show l1: "length (fst (crypto_loop 1 pt key)) = 8"
    by (rule length_crypto_loop_1 [OF assms(1,2)])
  show l2: "length (snd (crypto_loop 1 pt key)) = 10"
    by (rule length_crypto_loop_1 [OF assms(1,2)])
  show "state_reg (fst (crypto_func pt key)) =
           state_reg (fst (crypto_loop 1 pt key)) XOR
             ucast (drop_bit 16 (key_reg (snd (crypto_loop 1 pt key))))"
    unfolding crypto_func_final fst_conv by (rule state_reg_add_round_key [OF l1 l2])
  show "snd (crypto_func pt key) = snd (crypto_loop 1 pt key)"
    unfolding crypto_func_final by simp
qed

theorem crypto_loop_round_key_high_bits_witness:
  "(\<exists>m. length m = 8 \<and>
      state_reg m = state_reg [1, 2, 3, 4, 5, 6, 7, 8] XOR
        ucast (drop_bit 16 (key_reg [0xFF, 0xFF, 0, 0, 0, 0, 0, 0, 0, 0x80])) \<and>
      crypto_loop 1 [1, 2, 3, 4, 5, 6, 7, 8] [0xFF, 0xFF, 0, 0, 0, 0, 0, 0, 0, 0x80] =
        crypto_loop (1 + 1) (pbox_layer (sbox_layer m))
          (update_round_key [0xFF, 0xFF, 0, 0, 0, 0, 0, 0, 0, 0x80] 1) \<and>
      length (pbox_layer (sbox_layer m)) = 8) \<and>
   length (update_round_key [0xFF, 0xFF, 0, 0, 0, 0, 0, 0, 0, 0x80] 1) = 10 \<and>
   length (fst (crypto_loop 1 [1, 2, 3, 4, 5, 6, 7, 8] [0xFF, 0xFF, 0, 0, 0, 0, 0, 0, 0, 0x80])) = 8 \<and>
   length (snd (crypto_loop 1 [1, 2, 3, 4, 5, 6, 7, 8] [0xFF, 0xFF, 0, 0, 0, 0, 0, 0, 0, 0x80])) = 10 \<and>
   state_reg (fst (crypto_func [1, 2, 3, 4, 5, 6, 7, 8] [0xFF, 0xFF, 0, 0, 0, 0, 0, 0, 0, 0x80])) =
     state_reg (fst (crypto_loop 1 [1, 2, 3, 4, 5, 6, 7, 8] [0xFF, 0xFF, 0, 0, 0, 0, 0, 0, 0, 0x80])) XOR
       ucast (drop_bit 16 (key_reg
         (snd (crypto_loop 1 [1, 2, 3, 4, 5, 6, 7, 8] [0xFF, 0xFF, 0, 0, 0, 0, 0, 0, 0, 0x80])))) \<and>
   snd (crypto_func [1, 2, 3, 4, 5, 6, 7, 8] [0xFF, 0xFF, 0, 0, 0, 0, 0, 0, 0, 0x80]) =
     snd (crypto_loop 1 [1, 2, 3, 4, 5, 6, 7, 8] [0xFF, 0xFF, 0, 0, 0, 0, 0, 0, 0, 0x80])"
proof -
  have h: "length [1, 2, 3, 4, 5, 6, 7, 8 :: uint8_t] = 8"
    "length [0xFF, 0xFF, 0, 0, 0, 0, 0, 0, 0, 0x80 :: uint8_t] = 10"
    "(1 :: uint8_t) \<le> 1" "(1 :: uint8_t) \<le> 31"
    by simp_all
  show ?thesis
    by (rule crypto_loop_round_key_high_bits [OF h])
qed

end
